theory Spec2Isabelle
  imports Main
begin

section \<open>Python strings\<close>

text \<open>
  A Python \<open>str\<close> is a sequence of Unicode code points, so a string is a list of
  naturals; \<open>pys\<close> writes an ASCII literal. The Korean literals of the source are
  written by their code points.

  \<open>str.strip\<close>, \<open>str.lower\<close> and the classes \<open>\s\<close> and \<open>\d\<close> of \<open>re\<close> are
  decided by the Unicode tables of the interpreter, which are no part of the repository:
  they are parameters of the model (\<open>unicode_db\<close>), and so is the string form \<open>str(v)\<close>
  of a value that is not a string.
\<close>

type_synonym pystr = "nat list"

definition pys :: "string \<Rightarrow> pystr" where
  "pys s = map of_char s"

record unicode_db =
  is_space :: "nat \<Rightarrow> bool"
  is_digit :: "nat \<Rightarrow> bool"
  to_lower :: "pystr \<Rightarrow> pystr"

definition strip :: "(nat \<Rightarrow> bool) \<Rightarrow> pystr \<Rightarrow> pystr" where
  "strip sp s = rev (dropWhile sp (rev (dropWhile sp s)))"

datatype error =
  KeyError | AttributeError | IndexError | TypeError | ValueError | InvalidIndexError

definition bindE :: "error + 'a \<Rightarrow> ('a \<Rightarrow> error + 'b) \<Rightarrow> error + 'b" where
  "bindE m f = (case m of Inl e \<Rightarrow> Inl e | Inr x \<Rightarrow> f x)"

section \<open>Tables (pandas DataFrame)\<close>

text \<open>
  A cell of the tables handled by \<open>app.py\<close> is a string or the missing value NaN. A
  table has its column labels, in order, and its rows; a row is the list of its labelled
  cells in the order of the columns. The tables that the collectors build from lists of
  dicts have pairwise distinct labels, but \<open>rename\<close> can put two columns under one label
  (a KCI table that already has a column \<open>venue\<close> beside \<open>journal_name\<close>); pandas keeps
  both, and so does a row here. pandas compares NaN equal to NaN when it looks for
  duplicates, as equality of \<open>cell\<close> does.
\<close>

datatype cell = Str pystr | NaN

type_synonym row = "(pystr \<times> cell) list"

record frame =
  columns :: "pystr list"
  rows :: "row list"

definition cell_of :: "row \<Rightarrow> pystr \<Rightarrow> cell" where
  \<comment> \<open>the cell of a row under a label that has one column; NaN when the row has none\<close>
  "cell_of r c = (case map_of r c of Some v \<Rightarrow> v | None \<Rightarrow> NaN)"

definition col :: "pystr \<Rightarrow> frame \<Rightarrow> cell list" where
  \<comment> \<open>\<open>df[c]\<close>: the values of one column, top to bottom\<close>
  "col c f = map (\<lambda>r. cell_of r c) (rows f)"

definition df_empty :: "frame \<Rightarrow> bool" where
  \<comment> \<open>\<open>df.empty\<close>: some axis has length 0\<close>
  "df_empty f = (columns f = [] \<or> rows f = [])"

definition set_cell :: "pystr \<Rightarrow> cell \<Rightarrow> row \<Rightarrow> row" where
  \<comment> \<open>the row after \<open>df[c] = ...\<close>: every cell under the label is overwritten, or a new
      cell is appended\<close>
  "set_cell c v r =
     (if c \<in> set (map fst r) then map (\<lambda>(l, x). if l = c then (l, v) else (l, x)) r
      else r @ [(c, v)])"

definition assign :: "pystr \<Rightarrow> (row \<Rightarrow> cell) \<Rightarrow> frame \<Rightarrow> frame" where
  \<comment> \<open>\<open>df[c] = ...\<close>, the new cell computed from the row\<close>
  "assign c h f =
     \<lparr>columns = (if c \<in> set (columns f) then columns f else columns f @ [c]),
      rows = map (\<lambda>r. set_cell c (h r) r) (rows f)\<rparr>"

definition rename_label :: "(pystr \<times> pystr) list \<Rightarrow> pystr \<Rightarrow> pystr" where
  "rename_label m c = (case map_of m c of Some c' \<Rightarrow> c' | None \<Rightarrow> c)"

definition rename :: "(pystr \<times> pystr) list \<Rightarrow> frame \<Rightarrow> frame" where
  \<comment> \<open>\<open>df.rename(columns=m)\<close>; labels that are no column are ignored\<close>
  "rename m f =
     \<lparr>columns = map (rename_label m) (columns f),
      rows = map (map (\<lambda>(l, x). (rename_label m l, x))) (rows f)\<rparr>"

definition fill_missing :: "pystr list \<Rightarrow> frame \<Rightarrow> frame" where
  \<comment> \<open>\<open>for c in cs: if c not in df.columns: df[c] = ""\<close>\<close>
  "fill_missing cs f =
     fold (\<lambda>c g. if c \<in> set (columns g) then g else assign c (\<lambda>_. Str []) g) cs f"

definition select :: "pystr list \<Rightarrow> frame \<Rightarrow> error + frame" where
  \<comment> \<open>\<open>df[[c1, ..., cn]]\<close>: for each label in turn all the columns under it; KeyError when
      a label is no column\<close>
  "select cs f =
     (if set cs \<subseteq> set (columns f)
      then Inr \<lparr>columns = concat (map (\<lambda>c. filter (\<lambda>l. l = c) (columns f)) cs),
                rows = map (\<lambda>r. concat (map (\<lambda>c. filter (\<lambda>(l, x). l = c) r) cs)) (rows f)\<rparr>
      else Inl KeyError)"

fun uniq :: "'a list \<Rightarrow> 'a list \<Rightarrow> 'a list" where
  \<comment> \<open>first occurrences, in order, of what is not in \<open>seen\<close>\<close>
  "uniq seen [] = []"
| "uniq seen (x # xs) = (if x \<in> set seen then uniq seen xs else x # uniq (x # seen) xs)"

definition concat_frames :: "frame list \<Rightarrow> error + frame" where
  \<comment> \<open>\<open>pd.concat(frames, ignore_index=True)\<close>. Tables with the same columns are put one
      after the other. Otherwise the columns are the union in order of appearance, with
      NaN where a table lacks a column, and that needs unique labels in every table:
      pandas raises InvalidIndexError when it has to reindex repeated labels.\<close>
  "concat_frames fs =
     (case fs of
        [] \<Rightarrow> Inl ValueError
      | f0 # _ \<Rightarrow>
          if \<forall>f \<in> set fs. columns f = columns f0
          then Inr \<lparr>columns = columns f0, rows = concat (map rows fs)\<rparr>
          else if \<forall>f \<in> set fs. distinct (columns f)
          then (let cs = uniq [] (concat (map columns fs))
                in Inr \<lparr>columns = cs,
                         rows = concat (map (\<lambda>f. map (\<lambda>r. map (\<lambda>c. (c, cell_of r c)) cs) (rows f))
                                          fs)\<rparr>)
          else Inl InvalidIndexError)"

fun drop_dups :: "('a \<Rightarrow> 'k) \<Rightarrow> 'k list \<Rightarrow> 'a list \<Rightarrow> 'a list" where
  \<comment> \<open>keep a row iff no earlier row has its key (\<open>keep='first'\<close>)\<close>
  "drop_dups key seen [] = []"
| "drop_dups key seen (x # xs) =
     (if key x \<in> set seen then drop_dups key seen xs
      else x # drop_dups key (key x # seen) xs)"

definition drop_duplicates :: "pystr \<Rightarrow> frame \<Rightarrow> frame" where
  \<comment> \<open>\<open>df.drop_duplicates(subset=[c]).reset_index(drop=True)\<close>\<close>
  "drop_duplicates c f = f\<lparr>rows := drop_dups (\<lambda>r. cell_of r c) [] (rows f)\<rparr>"

definition drop_col :: "pystr \<Rightarrow> frame \<Rightarrow> frame" where
  \<comment> \<open>\<open>df.drop(columns=[c])\<close>\<close>
  "drop_col c f =
     \<lparr>columns = removeAll c (columns f), rows = map (filter (\<lambda>(l, x). l \<noteq> c)) (rows f)\<rparr>"

section \<open>app.py: title key, year, merge\<close>

fun sub_ws :: "(nat \<Rightarrow> bool) \<Rightarrow> bool \<Rightarrow> pystr \<Rightarrow> pystr" where
  \<comment> \<open>\<open>re.sub(r"\s+", " ", t)\<close>; the flag says that the run of white space has begun\<close>
  "sub_ws sp in_run [] = []"
| "sub_ws sp in_run (c # cs) =
     (if sp c then (if in_run then sub_ws sp True cs else 32 # sub_ws sp True cs)
      else c # sub_ws sp False cs)"

definition title_char :: "nat \<Rightarrow> bool" where
  \<comment> \<open>the class \<open>[0-9a-z\<dots> ]\<close> with the Hangul syllables U+AC00 to U+D7A3\<close>
  "title_char c = ((48 \<le> c \<and> c \<le> 57) \<or> (97 \<le> c \<and> c \<le> 122)
                   \<or> (44032 \<le> c \<and> c \<le> 55203) \<or> c = 32)"

definition normalize_title :: "unicode_db \<Rightarrow> cell \<Rightarrow> pystr" where
  "normalize_title U t =
     (case t of
        NaN \<Rightarrow> []
      | Str s \<Rightarrow> filter title_char (to_lower U (strip (is_space U) (sub_ws (is_space U) False s))))"

definition astype_str :: "cell \<Rightarrow> pystr" where
  "astype_str v = (case v of Str s \<Rightarrow> s | NaN \<Rightarrow> pys ''nan'')"

fun str_extract_d4 :: "(nat \<Rightarrow> bool) \<Rightarrow> pystr \<Rightarrow> cell" where
  \<comment> \<open>\<open>.str.extract(r"(\d{4})")[0]\<close>: the leftmost match, NaN when there is none\<close>
  "str_extract_d4 dg [] = NaN"
| "str_extract_d4 dg (c # cs) =
     (if 4 \<le> length (c # cs) \<and> list_all dg (take 4 (c # cs)) then Str (take 4 (c # cs))
      else str_extract_d4 dg cs)"

definition year_normalize :: "unicode_db \<Rightarrow> cell \<Rightarrow> cell" where
  "year_normalize U v = str_extract_d4 (is_digit U) (astype_str v)"

definition canon_cols :: "pystr list" where
  "canon_cols = map pys [''title'', ''authors'', ''venue'', ''pub_year'', ''url'', ''doi'',
                         ''abstract'', ''keywords'', ''source'']"

definition riss_keep :: "pystr list" where
  "riss_keep = canon_cols @ map pys [''doc_type'', ''material_type'']"

definition standardize_kci :: "frame \<Rightarrow> error + frame" where
  \<comment> \<open>lines 68 to 90\<close>
  "standardize_kci df_kci =
     select canon_cols
       (fill_missing (map pys [''authors'', ''venue'', ''pub_year'', ''url'', ''doi'',
                                ''abstract'', ''keywords''])
          (rename [(pys ''journal_name'', pys ''venue'')]
             (assign (pys ''source'') (\<lambda>_. Str (pys ''KCI'')) df_kci)))"

definition standardize_riss :: "frame \<Rightarrow> error + frame" where
  \<comment> \<open>lines 94 to 114\<close>
  "standardize_riss df_riss =
     select riss_keep
       (fill_missing riss_keep
          (fill_missing (map pys [''doi'', ''abstract'', ''keywords''])
             (rename [(pys ''author'', pys ''authors''), (pys ''publisher'', pys ''venue'')]
                (assign (pys ''source'') (\<lambda>_. Str (pys ''RISS'')) df_riss))))"

definition present :: "frame option \<Rightarrow> bool" where
  \<comment> \<open>\<open>df is not None and not df.empty\<close>\<close>
  "present d = (case d of None \<Rightarrow> False | Some f \<Rightarrow> \<not> df_empty f)"

definition standardized :: "(frame \<Rightarrow> error + frame) \<Rightarrow> frame option \<Rightarrow> error + frame list" where
  \<comment> \<open>what a source adds to \<open>frames\<close>\<close>
  "standardized std d =
     (case d of
        None \<Rightarrow> Inr []
      | Some f \<Rightarrow> if df_empty f then Inr [] else bindE (std f) (\<lambda>g. Inr [g]))"

definition concat_sources ::
  "unicode_db \<Rightarrow> frame option \<Rightarrow> frame option \<Rightarrow> error + frame option" where
  \<comment> \<open>lines 65 to 122: the table \<open>all_df\<close> before the duplicates are dropped, the KCI rows
      first, with the years normalized; \<open>None\<close> when neither source has a row\<close>
  "concat_sources U df_kci df_riss =
     bindE (standardized standardize_kci df_kci) (\<lambda>fk.
     bindE (standardized standardize_riss df_riss) (\<lambda>fr.
       let frames = fk @ fr
       in if frames = [] then Inr None
          else bindE (concat_frames frames) (\<lambda>all_df.
                 Inr (Some (assign (pys ''pub_year'')
                              (\<lambda>r. year_normalize U (cell_of r (pys ''pub_year''))) all_df)))))"

definition title_key :: "unicode_db \<Rightarrow> row \<Rightarrow> cell" where
  \<comment> \<open>the cell stored in the column \<open>_title_key\<close>\<close>
  "title_key U r = Str (normalize_title U (cell_of r (pys ''title'')))"

definition dedup :: "unicode_db \<Rightarrow> frame \<Rightarrow> frame" where
  \<comment> \<open>lines 124 to 130: by \<open>doi\<close>, then by the title key\<close>
  "dedup U all_df =
     (let all_df = (if pys ''doi'' \<in> set (columns all_df)
                    then drop_duplicates (pys ''doi'') all_df else all_df);
          all_df = assign (pys ''_title_key'') (title_key U) all_df
      in drop_col (pys ''_title_key'') (drop_duplicates (pys ''_title_key'') all_df))"

definition merge_frames :: "unicode_db \<Rightarrow> frame option \<Rightarrow> frame option \<Rightarrow> error + frame" where
  "merge_frames U df_kci df_riss =
     bindE (concat_sources U df_kci df_riss) (\<lambda>t.
       case t of
         None \<Rightarrow> Inr \<lparr>columns = canon_cols, rows = []\<rparr>
       | Some all_df \<Rightarrow> Inr (dedup U all_df))"

definition ascii_db :: unicode_db where
  \<comment> \<open>the tables of the interpreter cut down to ASCII, for evaluating examples\<close>
  "ascii_db = \<lparr>is_space = (\<lambda>c. c \<in> {9, 10, 11, 12, 13, 28, 29, 30, 31, 32}),
               is_digit = (\<lambda>c. 48 \<le> c \<and> c \<le> 57),
               to_lower = map (\<lambda>c. if 65 \<le> c \<and> c \<le> 90 then c + 32 else c)\<rparr>"

definition input_ok :: "frame option \<Rightarrow> bool" where
  \<comment> \<open>an argument of \<open>merge_frames\<close> as the collectors build it: the labels are pairwise
      distinct, and every row has its cells under the labels of the table\<close>
  "input_ok d =
     (case d of
        None \<Rightarrow> True
      | Some f \<Rightarrow> distinct (columns f) \<and> (\<forall>r \<in> set (rows f). map fst r = columns f))"

definition aligned :: "frame \<Rightarrow> bool" where
  \<comment> \<open>every row has its cells under the labels of the table, in their order\<close>
  "aligned f = (\<forall>r \<in> set (rows f). map fst r = columns f)"

definition as_kci_row :: "row \<Rightarrow> row" where
  \<comment> \<open>a row of a merged table after another pass through the KCI branch: the nine
      columns, tagged KCI\<close>
  "as_kci_row r =
     map (\<lambda>c. (c, if c = pys ''source'' then Str (pys ''KCI'') else cell_of r c)) canon_cols"

definition riss_results :: frame where
  \<comment> \<open>a table as \<open>create_dataframe\<close> gives it, cut down to four columns: two results\<close>
  "riss_results =
     \<lparr>columns = [pys ''title'', pys ''author'', pys ''pub_year'', pys ''url''],
      rows = [[(pys ''title'', Str (pys ''A'')), (pys ''author'', Str (pys ''Kim'')),
               (pys ''pub_year'', Str (pys ''2021'')), (pys ''url'', Str (pys ''u1''))],
              [(pys ''title'', Str (pys ''B'')), (pys ''author'', Str (pys ''Lee'')),
               (pys ''pub_year'', Str (pys ''2022'')), (pys ''url'', Str (pys ''u2''))]]\<rparr>"

definition kci_results :: frame where
  \<comment> \<open>a KCI table cut down to three columns: two articles with one \<open>doi\<close>\<close>
  "kci_results =
     \<lparr>columns = [pys ''title'', pys ''journal_name'', pys ''doi''],
      rows = [[(pys ''title'', Str (pys ''C'')), (pys ''journal_name'', Str (pys ''J'')),
               (pys ''doi'', Str (pys ''10.1/x''))],
              [(pys ''title'', Str (pys ''D'')), (pys ''journal_name'', Str (pys ''J'')),
               (pys ''doi'', Str (pys ''10.1/x''))]]\<rparr>"

definition clean_row :: "unicode_db \<Rightarrow> row \<Rightarrow> row" where
  \<comment> \<open>a row after the column \<open>_title_key\<close> has been added and dropped again\<close>
  "clean_row U r =
     filter (\<lambda>(l, x). l \<noteq> pys ''_title_key'') (set_cell (pys ''_title_key'') (title_key U r) r)"

definition merged_rows :: "unicode_db \<Rightarrow> row list \<Rightarrow> row list" where
  \<comment> \<open>the two passes on the rows, and the removal of the key column\<close>
  "merged_rows U rs =
     map (clean_row U)
       (drop_dups (title_key U) [] (drop_dups (\<lambda>r. cell_of r (pys ''doi'')) [] rs))"

text \<open>
  A match of \<open>\d{4}\<close> at position \<open>i\<close>: four characters of the class from there on.
\<close>

definition run_at :: "(nat \<Rightarrow> bool) \<Rightarrow> pystr \<Rightarrow> nat \<Rightarrow> bool" where
  "run_at dg s i = (i + 4 \<le> length s \<and> list_all dg (take 4 (drop i s)))"

section \<open>query_normalizer.py\<close>

text \<open>
  \<open>normalize\<close> merges the query with the terms of the CSV mapping and of the language
  model. The mapping file and the model are outside the repository, so the two lists are
  inputs here. \<open>list(set(bundle))\<close> enumerates a hash set: every order without
  repetition is possible, and the enumeration is a parameter (\<open>set_enum\<close> says what is
  known of it). \<open>sorted\<close> is stable, as \<open>sort_key\<close> is.
\<close>

definition set_enum :: "('a list \<Rightarrow> 'a list) \<Rightarrow> bool" where
  "set_enum list_of_set = (\<forall>xs. distinct (list_of_set xs) \<and> set (list_of_set xs) = set xs)"

definition normalize :: "(pystr list \<Rightarrow> pystr list) \<Rightarrow> pystr \<Rightarrow> pystr list \<Rightarrow> pystr list \<Rightarrow> pystr list" where
  "normalize list_of_set query csv_terms ai_terms =
     (let bundle = [query] @ csv_terms @ ai_terms;
          bundle = filter (\<lambda>t. t \<noteq> []) bundle;
          bundle = sort_key length (list_of_set bundle)
      in take 12 bundle)"

section \<open>Parsed responses\<close>

text \<open>
  \<open>_xml_to_dict\<close> turns an XML element into nested Python values: a \<open>dict\<close> with the entry
  \<open>text\<close> for the element's own text, one entry per attribute (a string) and one entry per
  child tag (a \<open>dict\<close>, or a \<open>list\<close> of them when the tag repeats). The extraction functions
  test their argument's type at run time, so they are modelled on all Python values of
  these shapes; \<open>PInt\<close> stands for the scalars of other types. A \<open>dict\<close> keeps its entries in
  insertion order and is an association list here (Python has every key once).

  \<open>str(v)\<close> of a value that is not a string (the \<open>repr\<close> of a dict, of a list, of a number)
  is the interpreter's: it is the parameter \<open>rp\<close>. The recursion limit of the interpreter
  is not modelled.
\<close>

datatype pyval =
    PNone
  | PStr pystr
  | PInt int
  | PDict "(pystr \<times> pyval) list"
  | PList "pyval list"

definition py_str :: "(pyval \<Rightarrow> pystr) \<Rightarrow> pyval \<Rightarrow> pystr" where
  "py_str rp v = (case v of PStr s \<Rightarrow> s | _ \<Rightarrow> rp v)"

definition truthy :: "pyval \<Rightarrow> bool" where
  "truthy v = (case v of PNone \<Rightarrow> False | PStr s \<Rightarrow> s \<noteq> [] | PInt n \<Rightarrow> n \<noteq> 0
               | PDict d \<Rightarrow> d \<noteq> [] | PList xs \<Rightarrow> xs \<noteq> [])"

definition is_dict :: "pyval \<Rightarrow> bool" where
  "is_dict v = (case v of PDict _ \<Rightarrow> True | _ \<Rightarrow> False)"

definition dict_get :: "(pystr \<times> pyval) list \<Rightarrow> pystr \<Rightarrow> pyval \<Rightarrow> pyval" where
  "dict_get d k dflt = (case map_of d k of Some v \<Rightarrow> v | None \<Rightarrow> dflt)"

definition py_get :: "pyval \<Rightarrow> pystr \<Rightarrow> pyval \<Rightarrow> error + pyval" where
  \<comment> \<open>\<open>v.get(k, dflt)\<close>: only a dict has the method\<close>
  "py_get v k dflt = (case v of PDict d \<Rightarrow> Inr (dict_get d k dflt) | _ \<Rightarrow> Inl AttributeError)"

fun join :: "pystr \<Rightarrow> pystr list \<Rightarrow> pystr" where
  "join sep [] = []"
| "join sep [x] = x"
| "join sep (x # y # ys) = x @ sep @ join sep (y # ys)"

fun first_present :: "(pystr \<times> pyval) list \<Rightarrow> pystr list \<Rightarrow> pyval option" where
  \<comment> \<open>\<open>for key in ks: if key in data: return data[key]\<close>\<close>
  "first_present d [] = None"
| "first_present d (k # ks) =
     (case map_of d k of Some v \<Rightarrow> Some v | None \<Rightarrow> first_present d ks)"

section \<open>KCI_collector.py: text and path extraction\<close>

fun extract_text_fast :: "(nat \<Rightarrow> bool) \<Rightarrow> (pyval \<Rightarrow> pystr) \<Rightarrow> pyval \<Rightarrow> pystr" where
  "extract_text_fast sp rp PNone = []"
| "extract_text_fast sp rp (PStr s) = strip sp s"
| "extract_text_fast sp rp (PDict d) =
     (case map_of d (pys ''text'') of
        Some v \<Rightarrow> strip sp (py_str rp v)
      | None \<Rightarrow>
          (case first_present d [pys ''#text'', pys ''content'', pys ''value''] of
             Some v \<Rightarrow> strip sp (py_str rp v)
           | None \<Rightarrow>
               (case d of
                  [(key, value)] \<Rightarrow>
                    if key \<notin> set [pys ''lang'', pys ''type'', pys ''id'']
                    then extract_text_fast sp rp value else []
                | _ \<Rightarrow> [])))"
| "extract_text_fast sp rp (PList []) = []"
| "extract_text_fast sp rp (PList (x # xs)) = extract_text_fast sp rp x"
| "extract_text_fast sp rp (PInt n) = (if n \<noteq> 0 then strip sp (rp (PInt n)) else [])"

fun follow :: "pyval \<Rightarrow> pystr list \<Rightarrow> pyval option" where
  \<comment> \<open>the loop over the keys: \<open>None\<close> where the source leaves the loop with \<open>return []\<close>\<close>
  "follow current [] = Some current"
| "follow current (key # keys) =
     (case current of
        PDict d \<Rightarrow> (case map_of d key of Some v \<Rightarrow> follow v keys | None \<Rightarrow> None)
      | _ \<Rightarrow> None)"

definition nonempty_texts :: "(nat \<Rightarrow> bool) \<Rightarrow> (pyval \<Rightarrow> pystr) \<Rightarrow> pyval \<Rightarrow> pystr list" where
  "nonempty_texts sp rp keyword_data =
     (case keyword_data of
        PList items \<Rightarrow> filter (\<lambda>t. t \<noteq> []) (map (extract_text_fast sp rp) items)
      | _ \<Rightarrow> (let text = extract_text_fast sp rp keyword_data
              in if text \<noteq> [] then [text] else []))"

definition extract_from_path ::
  "(nat \<Rightarrow> bool) \<Rightarrow> (pyval \<Rightarrow> pystr) \<Rightarrow> pyval \<Rightarrow> pystr list \<Rightarrow> error + pystr list" where
  \<comment> \<open>\<open>path[-1]\<close> is evaluated only when \<open>current\<close> is a dict, and raises on the empty path\<close>
  "extract_from_path sp rp data path =
     (case follow data (butlast path) of
        None \<Rightarrow> Inr []
      | Some current \<Rightarrow>
          (case current of
             PDict d \<Rightarrow>
               if path = [] then Inl IndexError
               else (case map_of d (last path) of
                       None \<Rightarrow> Inr []
                     | Some keyword_data \<Rightarrow> Inr (nonempty_texts sp rp keyword_data))
           | _ \<Rightarrow> Inr []))"

definition detail_article_info :: "pyval \<Rightarrow> error + pyval" where
  \<comment> \<open>\<open>detail_info.get('outputData', {}).get('record', {}).get('articleInfo', {})\<close>\<close>
  "detail_article_info detail_info =
     bindE (py_get detail_info (pys ''outputData'') (PDict [])) (\<lambda>output_data.
     bindE (py_get output_data (pys ''record'') (PDict [])) (\<lambda>record.
       py_get record (pys ''articleInfo'') (PDict [])))"

fun first_keywords ::
  "(nat \<Rightarrow> bool) \<Rightarrow> (pyval \<Rightarrow> pystr) \<Rightarrow> (pyval \<times> pystr list) list \<Rightarrow> error + pystr" where
  "first_keywords sp rp [] = Inr []"
| "first_keywords sp rp ((source_data, path) # rest) =
     bindE (extract_from_path sp rp source_data path) (\<lambda>keywords.
       if keywords \<noteq> [] then Inr (join (pys ''; '') keywords)
       else first_keywords sp rp rest)"

definition extract_keywords_optimized ::
  "(nat \<Rightarrow> bool) \<Rightarrow> (pyval \<Rightarrow> pystr) \<Rightarrow> pyval \<Rightarrow> pyval \<Rightarrow> error + pystr" where
  \<comment> \<open>\<open>detail_info\<close> is \<open>PNone\<close> when the argument is left out\<close>
  "extract_keywords_optimized sp rp article_info detail_info =
     bindE (if truthy detail_info
            then bindE (detail_article_info detail_info) (\<lambda>dai.
                   Inr [(dai, [pys ''keyword-group'', pys ''keyword'']),
                        (dai, [pys ''kwd-group'', pys ''kwd''])])
            else Inr [])
       (\<lambda>extra. first_keywords sp rp
          ([(article_info, [pys ''keyword-group'', pys ''keyword'']),
            (article_info, [pys ''kwd-group'', pys ''kwd'']),
            (article_info, [pys ''keywords'']),
            (article_info, [pys ''keyword''])] @ extra))"

fun first_abstract ::
  "(nat \<Rightarrow> bool) \<Rightarrow> (pyval \<Rightarrow> pystr) \<Rightarrow> pyval \<Rightarrow> pystr list list \<Rightarrow> pystr" where
  "first_abstract sp rp article_info [] = []"
| "first_abstract sp rp article_info (path # rest) =
     (case follow article_info path of
        Some cur \<Rightarrow>
          (let txt = extract_text_fast sp rp cur
           in if txt \<noteq> [] then txt else first_abstract sp rp article_info rest)
      | None \<Rightarrow> first_abstract sp rp article_info rest)"

definition extract_abstract_optimized ::
  "(nat \<Rightarrow> bool) \<Rightarrow> (pyval \<Rightarrow> pystr) \<Rightarrow> pyval \<Rightarrow> pystr" where
  "extract_abstract_optimized sp rp article_info =
     (if \<not> is_dict article_info then []
      else first_abstract sp rp article_info
             [[pys ''abstract''],
              [pys ''abstract-group'', pys ''abstract''],
              [pys ''abstract'', pys ''p''],
              [pys ''abstract'', pys ''text''],
              [pys ''abstract-group'', pys ''abstract'', pys ''p''],
              [pys ''abstract-group'', pys ''abstract'', pys ''text'']])"

section \<open>RISS_collector.py: text extraction\<close>

fun extract_text :: "(nat \<Rightarrow> bool) \<Rightarrow> (pyval \<Rightarrow> pystr) \<Rightarrow> pyval \<Rightarrow> pystr" where
  "extract_text sp rp (PDict d) =
     (case map_of d (pys ''text'') of
        Some v \<Rightarrow> strip sp (py_str rp v)
      | None \<Rightarrow>
          (case map_of d (pys ''#text'') of
             Some v \<Rightarrow> strip sp (py_str rp v)
           | None \<Rightarrow>
               (case d of
                  (key, value) # _ \<Rightarrow> strip sp (py_str rp value)
                | [] \<Rightarrow> [])))"
| "extract_text sp rp (PStr s) = strip sp s"
| "extract_text sp rp (PList (x # xs)) = extract_text sp rp x"
| "extract_text sp rp PNone = []"
| "extract_text sp rp (PList []) = strip sp (rp (PList []))"
| "extract_text sp rp (PInt n) = strip sp (rp (PInt n))"

definition str_unused :: "pyval \<Rightarrow> pystr" where
  \<comment> \<open>in the place of \<open>str\<close> in examples where every value is a string\<close>
  "str_unused v = []"

section \<open>KCI_collector.py: records and detail enrichment\<close>

text \<open>
  The article that \<open>_extract_basic_info\<close> builds is a dict with a fixed set of keys: a
  record. Three of its values are taken from the response as they are, without text
  extraction, and stay Python values.
\<close>

record article =
  journal_name :: pystr
  publisher_name :: pystr
  pub_year :: pystr
  pub_mon :: pystr
  volume :: pystr
  issue :: pystr
  article_id :: pyval
  categories :: pystr
  regularity :: pystr
  title :: pystr
  authors :: pystr
  abstract :: pystr
  "keywords" :: pystr
  fpage :: pystr
  lpage :: pystr
  doi :: pystr
  uci :: pystr
  citation_count :: pystr
  kci_citations :: pyval
  wos_citations :: pyval
  url :: pystr
  verified :: pystr
  orte_open_yn :: pystr

definition no_title :: pystr where
  \<comment> \<open>the placeholder of line 385, five code points: two Hangul syllables, a space, two more\<close>
  "no_title = [51228, 47785, 32, 50630, 51020]"

definition get_text ::
  "(nat \<Rightarrow> bool) \<Rightarrow> (pyval \<Rightarrow> pystr) \<Rightarrow> pyval \<Rightarrow> pystr \<Rightarrow> error + pystr" where
  \<comment> \<open>\<open>self._extract_text_fast(info.get(k, {}))\<close>\<close>
  "get_text sp rp info k =
     bindE (py_get info k (PDict [])) (\<lambda>v. Inr (extract_text_fast sp rp v))"

definition title_text_of :: "(nat \<Rightarrow> bool) \<Rightarrow> (pyval \<Rightarrow> pystr) \<Rightarrow> pyval \<Rightarrow> error + pystr" where
  \<comment> \<open>lines 380 to 383; \<open>article_title[0]\<close> raises on an empty list\<close>
  "title_text_of sp rp article_title =
     (case article_title of
        PList [] \<Rightarrow> Inl IndexError
      | PList (x # xs) \<Rightarrow> Inr (extract_text_fast sp rp x)
      | _ \<Rightarrow> Inr (extract_text_fast sp rp article_title))"

definition first_five :: "pyval \<Rightarrow> error + pyval list" where
  \<comment> \<open>the items of \<open>authors[:5]\<close>: a slice of a string runs over its characters, and a
      value that is no sequence cannot be sliced\<close>
  "first_five authors_value =
     (case authors_value of
        PList xs \<Rightarrow> Inr (take 5 xs)
      | PStr s \<Rightarrow> Inr (map (\<lambda>c. PStr [c]) (take 5 s))
      | _ \<Rightarrow> Inl TypeError)"

definition abstract_of :: "(nat \<Rightarrow> bool) \<Rightarrow> (pyval \<Rightarrow> pystr) \<Rightarrow> pyval \<Rightarrow> error + pystr" where
  \<comment> \<open>lines 402 to 407\<close>
  "abstract_of sp rp article_info =
     bindE (get_text sp rp article_info (pys ''abstract'')) (\<lambda>abstract_text.
       if abstract_text \<noteq> [] then Inr abstract_text
       else bindE (py_get article_info (pys ''abstract-group'') (PDict [])) (\<lambda>abstract_group.
              if truthy abstract_group
              then get_text sp rp abstract_group (pys ''abstract'')
              else Inr abstract_text))"

definition extract_basic_info ::
  "(nat \<Rightarrow> bool) \<Rightarrow> (pyval \<Rightarrow> pystr) \<Rightarrow> pyval \<Rightarrow> error + article" where
  "extract_basic_info sp rp record =
     bindE (py_get record (pys ''journalInfo'') (PDict [])) (\<lambda>journal_info.
     bindE (get_text sp rp journal_info (pys ''journal-name'')) (\<lambda>a_journal_name.
     bindE (get_text sp rp journal_info (pys ''publisher-name'')) (\<lambda>a_publisher_name.
     bindE (get_text sp rp journal_info (pys ''pub-year'')) (\<lambda>a_pub_year.
     bindE (get_text sp rp journal_info (pys ''pub-mon'')) (\<lambda>a_pub_mon.
     bindE (get_text sp rp journal_info (pys ''volume'')) (\<lambda>a_volume.
     bindE (get_text sp rp journal_info (pys ''issue'')) (\<lambda>a_issue.
     bindE (py_get record (pys ''articleInfo'') (PDict [])) (\<lambda>article_info.
     bindE (py_get article_info (pys ''article-id'') (PStr [])) (\<lambda>a_article_id.
     bindE (get_text sp rp article_info (pys ''article-categories'')) (\<lambda>a_categories.
     bindE (get_text sp rp article_info (pys ''article-regularity'')) (\<lambda>a_regularity.
     bindE (py_get article_info (pys ''title-group'') (PDict [])) (\<lambda>title_group.
     bindE (py_get title_group (pys ''article-title'') (PDict [])) (\<lambda>article_title.
     bindE (title_text_of sp rp article_title) (\<lambda>title_text.
     bindE (py_get article_info (pys ''author-group'') (PDict [])) (\<lambda>author_group.
     bindE (py_get author_group (pys ''author'') (PList [])) (\<lambda>authors0.
     bindE (first_five (if is_dict authors0 then PList [authors0] else authors0)) (\<lambda>authors5.
     bindE (abstract_of sp rp article_info) (\<lambda>abstract_text.
     bindE (extract_keywords_optimized sp rp article_info PNone) (\<lambda>a_keywords.
     bindE (get_text sp rp article_info (pys ''fpage'')) (\<lambda>a_fpage.
     bindE (get_text sp rp article_info (pys ''lpage'')) (\<lambda>a_lpage.
     bindE (get_text sp rp article_info (pys ''doi'')) (\<lambda>a_doi.
     bindE (get_text sp rp article_info (pys ''uci'')) (\<lambda>a_uci.
     bindE (py_get article_info (pys ''citation-count'') (PDict [])) (\<lambda>cc.
     bindE (py_get cc (pys ''kci'') (PStr (pys ''0''))) (\<lambda>a_kci.
     bindE (py_get cc (pys ''wos'') (PStr (pys ''0''))) (\<lambda>a_wos.
     bindE (get_text sp rp article_info (pys ''url'')) (\<lambda>a_url.
     bindE (get_text sp rp article_info (pys ''verified'')) (\<lambda>a_verified.
     bindE (get_text sp rp article_info (pys ''orte-open-yn'')) (\<lambda>a_orte.
       Inr \<lparr>journal_name = a_journal_name, publisher_name = a_publisher_name,
            pub_year = a_pub_year, pub_mon = a_pub_mon, volume = a_volume, issue = a_issue,
            article_id = a_article_id, categories = a_categories, regularity = a_regularity,
            title = (if title_text \<noteq> [] then title_text else no_title),
            authors = join (pys ''; '')
                        (filter (\<lambda>t. t \<noteq> []) (map (extract_text_fast sp rp) authors5)),
            abstract = abstract_text, keywords = a_keywords,
            fpage = a_fpage, lpage = a_lpage, doi = a_doi, uci = a_uci,
            citation_count = (if extract_text_fast sp rp cc \<noteq> []
                              then extract_text_fast sp rp cc else pys ''0''),
            kci_citations = a_kci, wos_citations = a_wos,
            url = a_url, verified = a_verified, orte_open_yn = a_orte\<rparr>
     )))))))))))))))))))))))))))))"

definition hashable :: "pyval \<Rightarrow> bool" where
  \<comment> \<open>\<open>article_id in details\<close> raises TypeError for a dict or a list\<close>
  "hashable v = (case v of PDict _ \<Rightarrow> False | PList _ \<Rightarrow> False | _ \<Rightarrow> True)"

definition enrich_one ::
  "(nat \<Rightarrow> bool) \<Rightarrow> (pyval \<Rightarrow> pystr) \<Rightarrow> pyval list \<Rightarrow> (pyval \<Rightarrow> pyval option)
     \<Rightarrow> nat \<times> pyval \<Rightarrow> article list \<Rightarrow> error option \<times> article list" where
  \<comment> \<open>one round of the loop of lines 329 to 344: the exception raised, if any, and the
      list as the round leaves it (the list is updated in place, so a write made before
      an exception stays)\<close>
  "enrich_one sp rp records details x articles =
     (case x of (i, aid) \<Rightarrow>
        if \<not> hashable aid then (Some TypeError, articles)
        else (case details aid of
           None \<Rightarrow> (None, articles)
         | Some detail_info \<Rightarrow>
             if length records \<le> i then (Some IndexError, articles)
             else (case bindE (py_get (records ! i) (pys ''articleInfo'') (PDict []))
                         (\<lambda>ai. extract_keywords_optimized sp rp ai detail_info) of
                Inl e \<Rightarrow> (Some e, articles)
              | Inr enhanced_keywords \<Rightarrow>
                  if length articles \<le> i then (Some IndexError, articles)
                  else
                    let articles1 =
                          (if enhanced_keywords \<noteq> [] \<and> keywords (articles ! i) = []
                           then articles[i := (articles ! i)\<lparr>keywords := enhanced_keywords\<rparr>]
                           else articles)
                    in if abstract (articles1 ! i) = []
                       then (case detail_article_info detail_info of
                               Inl e \<Rightarrow> (Some e, articles1)
                             | Inr dai \<Rightarrow>
                                 let enhanced_abs = extract_abstract_optimized sp rp dai
                                 in if enhanced_abs \<noteq> []
                                    then (None, articles1[i := (articles1 ! i)
                                                   \<lparr>abstract := enhanced_abs\<rparr>])
                                    else (None, articles1))
                       else (None, articles1))))"

fun enrich_details ::
  "(nat \<Rightarrow> bool) \<Rightarrow> (pyval \<Rightarrow> pystr) \<Rightarrow> pyval list \<Rightarrow> (pyval \<Rightarrow> pyval option)
     \<Rightarrow> (nat \<times> pyval) list \<Rightarrow> article list \<Rightarrow> article list" where
  \<comment> \<open>the loop; an exception ends it, and the caller's \<open>except\<close> returns the list as it is\<close>
  "enrich_details sp rp records details [] articles = articles"
| "enrich_details sp rp records details (x # rest) articles =
     (case enrich_one sp rp records details x articles of
        (None, articles') \<Rightarrow> enrich_details sp rp records details rest articles'
      | (Some e, articles') \<Rightarrow> articles')"

fun basic_infos ::
  "(nat \<Rightarrow> bool) \<Rightarrow> (pyval \<Rightarrow> pystr) \<Rightarrow> bool \<Rightarrow> nat \<Rightarrow> pyval list \<Rightarrow> article list
     \<Rightarrow> (nat \<times> pyval) list \<Rightarrow> error option \<times> article list \<times> (nat \<times> pyval) list" where
  \<comment> \<open>the loop of lines 309 to 319, from index \<open>i\<close> on\<close>
  "basic_infos sp rp fetch_details i [] articles need = (None, articles, need)"
| "basic_infos sp rp fetch_details i (record # rest) articles need =
     (case extract_basic_info sp rp record of
        Inl e \<Rightarrow> (Some e, articles, need)
      | Inr a \<Rightarrow>
          basic_infos sp rp fetch_details (Suc i) rest (articles @ [a])
            (if (keywords a = [] \<or> abstract a = []) \<and> truthy (article_id a) \<and> fetch_details
             then need @ [(i, article_id a)] else need))"

definition iterate :: "pyval \<Rightarrow> error + pyval list" where
  \<comment> \<open>\<open>for x in v\<close>: the items of a list, the characters of a string, the keys of a dict\<close>
  "iterate v =
     (case v of
        PList xs \<Rightarrow> Inr xs
      | PStr s \<Rightarrow> Inr (map (\<lambda>c. PStr [c]) s)
      | PDict d \<Rightarrow> Inr (map (\<lambda>kv. PStr (fst kv)) d)
      | _ \<Rightarrow> Inl TypeError)"

definition extract_article_info_optimized ::
  "(nat \<Rightarrow> bool) \<Rightarrow> (pyval \<Rightarrow> pystr) \<Rightarrow> (pyval list \<Rightarrow> error + (pyval \<Rightarrow> pyval option))
     \<Rightarrow> pyval \<Rightarrow> bool \<Rightarrow> article list" where
  \<comment> \<open>the rows of the returned table. \<open>batch\<close> is \<open>get_article_detail_batch\<close>, the network
      lookups: the details it found, by identifier, or the exception it raised\<close>
  "extract_article_info_optimized sp rp batch api_response fetch_details =
     (if \<not> truthy api_response then []
      else
        (case bindE (py_get api_response (pys ''outputData'') (PDict [])) (\<lambda>output_data.
              bindE (py_get output_data (pys ''record'') (PList [])) (\<lambda>records.
                iterate (if is_dict records then PList [records] else records))) of
           Inl e \<Rightarrow> []
         | Inr records \<Rightarrow>
             (case basic_infos sp rp fetch_details 0 records [] [] of
                (Some e, articles, need) \<Rightarrow> articles
              | (None, articles, need) \<Rightarrow>
                  if need = [] then articles
                  else (case batch (map snd need) of
                          Inl e \<Rightarrow> articles
                        | Inr details \<Rightarrow> enrich_details sp rp records details need articles))))"

definition other_fields :: "article \<Rightarrow> article" where
  \<comment> \<open>the article with the two fields that enrichment may write blanked out\<close>
  "other_fields a = a\<lparr>keywords := [], abstract := []\<rparr>"

definition only_fills :: "article \<Rightarrow> article \<Rightarrow> bool" where
  \<comment> \<open>\<open>a'\<close> is \<open>a\<close> but for \<open>keywords\<close> and \<open>abstract\<close>, each changed only if it was empty\<close>
  "only_fills a a' =
     (other_fields a' = other_fields a
      \<and> (keywords a \<noteq> [] \<longrightarrow> keywords a' = keywords a)
      \<and> (abstract a \<noteq> [] \<longrightarrow> abstract a' = abstract a))"

definition sample_article :: article where
  \<comment> \<open>an article that has its keywords and its abstract already\<close>
  "sample_article =
     \<lparr>journal_name = pys ''J'', publisher_name = [], pub_year = pys ''2023'', pub_mon = [],
      volume = [], issue = [], article_id = PStr (pys ''ART1''), categories = [],
      regularity = [], title = pys ''T'', authors = [], abstract = pys ''ab'',
      keywords = pys ''k1; k2'', fpage = [], lpage = [], doi = [], uci = [],
      citation_count = pys ''0'', kci_citations = PStr (pys ''0''),
      wos_citations = PStr (pys ''0''), url = [], verified = [], orte_open_yn = []\<rparr>"

definition two_titles :: pyval where
  \<comment> \<open>a record whose title tag is repeated\<close>
  "two_titles =
     PDict [(pys ''articleInfo'',
        PDict [(pys ''article-id'', PStr (pys ''ART1'')),
               (pys ''title-group'',
                  PDict [(pys ''article-title'',
                     PList [PDict [(pys ''text'', PStr (pys ''T1''))],
                            PDict [(pys ''text'', PStr (pys ''T2''))]])])])]"

section \<open>RISS_collector.py: records of a response\<close>

record riss_article =
  riss_title :: pystr
  riss_author :: pystr
  riss_publisher :: pystr
  riss_pub_year :: pystr
  riss_doc_type :: pystr
  riss_material_type :: pystr
  riss_url :: pystr
  riss_has_abstract :: pystr
  riss_has_toc :: pystr
  riss_has_image :: pystr
  riss_doc_type_name :: pystr

definition doc_type_map :: "pystr \<Rightarrow> pystr" where
  \<comment> \<open>\<open>doc_type_map.get(t, t)\<close>; the three labels are Korean, given by their code points\<close>
  "doc_type_map t =
     (if t = pys ''T'' then [54617, 50948, 45436, 47928]
      else if t = pys ''A'' then [44397, 45236, 54617, 49696, 45436, 47928]
      else if t = pys ''F'' then [54644, 50808, 54617, 49696, 45436, 47928]
      else t)"

definition riss_field ::
  "(nat \<Rightarrow> bool) \<Rightarrow> (pyval \<Rightarrow> pystr) \<Rightarrow> (pystr \<times> pyval) list \<Rightarrow> pystr \<Rightarrow> pystr" where
  \<comment> \<open>\<open>self._extract_text(record.get(k, ''))\<close>\<close>
  "riss_field sp rp d k = extract_text sp rp (dict_get d k (PStr []))"

definition riss_record ::
  "(nat \<Rightarrow> bool) \<Rightarrow> (pyval \<Rightarrow> pystr) \<Rightarrow> (pystr \<times> pyval) list \<Rightarrow> riss_article" where
  "riss_record sp rp d =
     \<lparr>riss_title = riss_field sp rp d (pys ''riss.title''),
      riss_author = riss_field sp rp d (pys ''riss.author''),
      riss_publisher = riss_field sp rp d (pys ''riss.publisher''),
      riss_pub_year = riss_field sp rp d (pys ''riss.pubdate''),
      riss_doc_type = riss_field sp rp d (pys ''riss.type''),
      riss_material_type = riss_field sp rp d (pys ''riss.mtype''),
      riss_url = riss_field sp rp d (pys ''url''),
      riss_has_abstract = riss_field sp rp d (pys ''riss.abstract''),
      riss_has_toc = riss_field sp rp d (pys ''riss.toc''),
      riss_has_image = riss_field sp rp d (pys ''riss.image''),
      riss_doc_type_name = doc_type_map (riss_field sp rp d (pys ''riss.type''))\<rparr>"

definition normalize_record ::
  "(nat \<Rightarrow> bool) \<Rightarrow> (pyval \<Rightarrow> pystr) \<Rightarrow> pyval \<Rightarrow> riss_article option" where
  \<comment> \<open>the body of the loop of lines 309 to 346: the article appended, if any. On a record
      that is no dict \<open>record.get\<close> raises, and the \<open>except\<close> goes on to the next record\<close>
  "normalize_record sp rp record =
     (case record of
        PDict d \<Rightarrow>
          (let article = riss_record sp rp d
           in if riss_title article \<noteq> [] then Some article else None)
      | _ \<Rightarrow> None)"

definition extract_articles_from_response ::
  "(nat \<Rightarrow> bool) \<Rightarrow> (pyval \<Rightarrow> pystr) \<Rightarrow> pyval \<Rightarrow> riss_article list" where
  \<comment> \<open>a response that is no dict gives no article: either a key test fails, or a
      subscript raises into the outer \<open>except\<close>\<close>
  "extract_articles_from_response sp rp api_response =
     (case api_response of
        PDict resp \<Rightarrow>
          (case (map_of resp (pys ''head''), map_of resp (pys ''metadata'')) of
             (Some head, Some metadata) \<Rightarrow>
               (case head of
                  PDict h \<Rightarrow>
                    if riss_field sp rp h (pys ''Error'') \<noteq> pys ''0'' then []
                    else (case iterate (if is_dict metadata then PList [metadata] else metadata) of
                            Inl e \<Rightarrow> []
                          | Inr records \<Rightarrow> List.map_filter (normalize_record sp rp) records)
                | _ \<Rightarrow> [])
           | _ \<Rightarrow> [])
      | _ \<Rightarrow> [])"

definition titled :: "(pystr \<times> pyval) list" where
  \<comment> \<open>a record with a title\<close>
  "titled = [(pys ''riss.title'', PDict [(pys ''text'', PStr (pys ''X''))])]"

definition response_with :: "pystr \<Rightarrow> pyval" where
  \<comment> \<open>a response with the error code \<open>code\<close> in its head and the record \<open>titled\<close>\<close>
  "response_with code =
     PDict [(pys ''head'', PDict [(pys ''Error'', PDict [(pys ''text'', PStr code)])]),
            (pys ''metadata'', PDict titled)]"

section \<open>Dropping duplicates\<close>

lemma bindE_Inr:
  "bindE m f = Inr y \<Longrightarrow> \<exists>x. m = Inr x \<and> f x = Inr y"
  by (cases m) (simp_all add: bindE_def)

lemma drop_dups_set: "set (drop_dups key seen xs) \<subseteq> set xs"
  by (induction xs arbitrary: seen) auto

lemma drop_dups_fresh: "x \<in> set (drop_dups key seen xs) \<Longrightarrow> key x \<notin> set seen"
proof (induction xs arbitrary: seen)
  case Nil
  then show ?case by simp
next
  case (Cons a xs)
  show ?case
  proof (cases "key a \<in> set seen")
    case True
    with Cons show ?thesis by simp
  next
    case False
    with Cons.prems have "x = a \<or> x \<in> set (drop_dups key (key a # seen) xs)" by simp
    then show ?thesis
    proof
      assume "x = a"
      with False show ?thesis by simp
    next
      assume "x \<in> set (drop_dups key (key a # seen) xs)"
      then have "key x \<notin> set (key a # seen)" by (rule Cons.IH)
      then show ?thesis by simp
    qed
  qed
qed

lemma drop_dups_distinct: "distinct (map key (drop_dups key seen xs))"
proof (induction xs arbitrary: seen)
  case Nil
  then show ?case by simp
next
  case (Cons a xs)
  show ?case
  proof (cases "key a \<in> set seen")
    case True
    with Cons show ?thesis by simp
  next
    case False
    have "key a \<notin> key ` set (drop_dups key (key a # seen) xs)"
    proof
      assume "key a \<in> key ` set (drop_dups key (key a # seen) xs)"
      then obtain y where y: "y \<in> set (drop_dups key (key a # seen) xs)" "key a = key y"
        by auto
      from y(1) have "key y \<notin> set (key a # seen)" by (rule drop_dups_fresh)
      with y(2) show False by simp
    qed
    with False Cons.IH [of "key a # seen"] show ?thesis by simp
  qed
qed

lemma drop_dups_keeps_distinct:
  "distinct (map g xs) \<Longrightarrow> distinct (map g (drop_dups key seen xs))"
proof (induction xs arbitrary: seen)
  case Nil
  then show ?case by simp
next
  case (Cons a xs)
  have sub: "set (drop_dups key (key a # seen) xs) \<subseteq> set xs" by (rule drop_dups_set)
  from Cons.prems have d: "distinct (map g xs)" and a: "g a \<notin> g ` set xs" by simp_all
  from a sub have "g a \<notin> g ` set (drop_dups key (key a # seen) xs)" by blast
  with Cons.IH [OF d] show ?case by simp
qed

lemma drop_dups_id:
  "distinct (map key xs) \<Longrightarrow> set (map key xs) \<inter> set seen = {} \<Longrightarrow> drop_dups key seen xs = xs"
proof (induction xs arbitrary: seen)
  case Nil
  then show ?case by simp
next
  case (Cons a xs)
  from Cons.prems have a: "key a \<notin> set seen" by auto
  from Cons.prems have "distinct (map key xs)" "set (map key xs) \<inter> set (key a # seen) = {}"
    by auto
  then have "drop_dups key (key a # seen) xs = xs" by (rule Cons.IH)
  with a show ?case by simp
qed

lemma drop_dups_map:
  "(\<And>x. x \<in> set xs \<Longrightarrow> key' (g x) = key x) \<Longrightarrow>
   drop_dups key' seen (map g xs) = map g (drop_dups key seen xs)"
  by (induction xs arbitrary: seen) auto

lemma drop_dups_first:
  "x \<in> set (drop_dups key seen xs) \<Longrightarrow> find (\<lambda>r. key r = key x) xs = Some x"
proof (induction xs arbitrary: seen)
  case Nil
  then show ?case by simp
next
  case (Cons a xs)
  show ?case
  proof (cases "key a \<in> set seen")
    case True
    with Cons.prems have x: "x \<in> set (drop_dups key seen xs)" by simp
    then have "key x \<notin> set seen" by (rule drop_dups_fresh)
    with True have "key a \<noteq> key x" by auto
    with Cons.IH [OF x] show ?thesis by simp
  next
    case False
    show ?thesis
    proof (cases "key a = key x")
      case same: True
      have "x \<notin> set (drop_dups key (key a # seen) xs)"
      proof
        assume "x \<in> set (drop_dups key (key a # seen) xs)"
        then have "key x \<notin> set (key a # seen)" by (rule drop_dups_fresh)
        with same show False by simp
      qed
      with Cons.prems False have "x = a" by simp
      then show ?thesis by simp
    next
      case diff: False
      with Cons.prems False have "x \<in> set (drop_dups key (key a # seen) xs)" by auto
      then have "find (\<lambda>r. key r = key x) xs = Some x" by (rule Cons.IH)
      with diff show ?thesis by simp
    qed
  qed
qed

lemma drop_dups_head: "key a \<notin> set seen \<Longrightarrow> drop_dups key seen (a # xs) \<noteq> []
    \<and> hd (drop_dups key seen (a # xs)) = a"
  by simp

lemma distinct_map_filter_le1:
  "distinct ys \<Longrightarrow> length (filter (\<lambda>y. y = v) ys) \<le> 1"
  by (induction ys) (auto simp: filter_empty_conv)

section \<open>Cells and labels\<close>

lemma map_of_overwrite:
  "map_of (map (\<lambda>(l, x). if l = c then (l, v) else (l, x)) r) c' =
     (if c' = c then (if map_of r c = None then None else Some v) else map_of r c')"
  by (induction r) auto

lemma cell_of_set_cell:
  "cell_of (set_cell c v r) c' = (if c' = c then v else cell_of r c')"
proof (cases "c \<in> set (map fst r)")
  case True
  then have "map_of r c \<noteq> None" by (simp add: map_of_eq_None_iff)
  then obtain y where "map_of r c = Some y" by auto
  with True show ?thesis by (simp add: cell_of_def set_cell_def map_of_overwrite)
next
  case False
  then have "map_of r c = None" by (simp add: map_of_eq_None_iff)
  with False show ?thesis
    by (auto simp: cell_of_def set_cell_def map_add_def split: option.splits)
qed

lemma cell_of_drop_other:
  "c' \<noteq> c \<Longrightarrow> cell_of (filter (\<lambda>(l, x). l \<noteq> c) r) c' = cell_of r c'"
  by (induction r) (auto simp: cell_of_def)

lemma labels_set_cell: "set (map fst (set_cell c v r)) \<subseteq> insert c (set (map fst r))"
  by (auto simp: set_cell_def split: if_splits)

lemma clean_row_id: "pys ''_title_key'' \<notin> set (map fst r) \<Longrightarrow> clean_row U r = r"
proof -
  assume n: "pys ''_title_key'' \<notin> set (map fst r)"
  then have "filter (\<lambda>(l, x). l \<noteq> pys ''_title_key'') r = r"
    by (induction r) auto
  with n show ?thesis by (simp add: clean_row_def set_cell_def)
qed

lemma set_uniq: "set (uniq seen xs) = set xs - set seen"
  by (induction xs arbitrary: seen) auto

lemma uniq_distinct: "distinct xs \<Longrightarrow> set xs \<inter> set seen = {} \<Longrightarrow> uniq seen xs = xs"
  by (induction xs arbitrary: seen) auto

section \<open>The table before the duplicates are dropped\<close>

lemma select_Inr:
  assumes "select cs f = Inr g"
  shows "set (columns g) = set cs" and "\<forall>r \<in> set (rows g). set (map fst r) \<subseteq> set cs"
  using assms by (auto simp: select_def split: if_splits)

lemma standardize_kci_Inr:
  assumes "standardize_kci f = Inr g"
  shows "set (columns g) = set canon_cols"
    and "\<forall>r \<in> set (rows g). set (map fst r) \<subseteq> set canon_cols"
proof -
  from assms obtain h where s: "select canon_cols h = Inr g"
    by (simp add: standardize_kci_def)
  from select_Inr(1) [OF s] show "set (columns g) = set canon_cols" .
  from select_Inr(2) [OF s] show "\<forall>r \<in> set (rows g). set (map fst r) \<subseteq> set canon_cols" .
qed

lemma standardize_riss_Inr:
  assumes "standardize_riss f = Inr g"
  shows "set (columns g) = set riss_keep"
    and "\<forall>r \<in> set (rows g). set (map fst r) \<subseteq> set riss_keep"
proof -
  from assms obtain h where s: "select riss_keep h = Inr g"
    by (simp add: standardize_riss_def)
  from select_Inr(1) [OF s] show "set (columns g) = set riss_keep" .
  from select_Inr(2) [OF s] show "\<forall>r \<in> set (rows g). set (map fst r) \<subseteq> set riss_keep" .
qed

lemma standardized_Inr:
  assumes "standardized std d = Inr fs" and "f \<in> set fs"
  shows "\<exists>f0. d = Some f0 \<and> std f0 = Inr f"
proof (cases d)
  case None
  with assms show ?thesis by (simp add: standardized_def)
next
  case (Some f0)
  show ?thesis
  proof (cases "df_empty f0")
    case True
    with assms Some show ?thesis by (simp add: standardized_def)
  next
    case False
    show ?thesis
    proof (cases "std f0")
      case (Inl e)
      with assms Some False show ?thesis by (simp add: standardized_def bindE_def)
    next
      case (Inr g)
      with assms Some False have "f = g" by (auto simp: standardized_def bindE_def)
      with Inr Some show ?thesis by blast
    qed
  qed
qed

lemma canon_sub_keep: "set canon_cols \<subseteq> set riss_keep"
  by (auto simp: riss_keep_def)

lemma doi_in_canon: "pys ''doi'' \<in> set canon_cols"
  by (simp add: canon_cols_def)

lemma doi_in_keep: "pys ''doi'' \<in> set riss_keep"
  using doi_in_canon canon_sub_keep by blast

lemma pub_year_in_canon: "pys ''pub_year'' \<in> set canon_cols"
  by (simp add: canon_cols_def)

lemma key_not_in_keep: "pys ''_title_key'' \<notin> set riss_keep"
  by (simp add: riss_keep_def canon_cols_def pys_def)

lemma concat_frames_cases:
  assumes "concat_frames fs = Inr t"
  obtains (same) "columns t = columns (hd fs)" "\<forall>f \<in> set fs. columns f = columns (hd fs)"
    "rows t = concat (map rows fs)"
  | (union) "\<forall>f \<in> set fs. distinct (columns f)"
    "columns t = uniq [] (concat (map columns fs))"
    "rows t = concat (map (\<lambda>f. map (\<lambda>r. map (\<lambda>c. (c, cell_of r c))
                               (uniq [] (concat (map columns fs)))) (rows f)) fs)"
proof (cases fs)
  case Nil
  with assms show thesis by (simp add: concat_frames_def)
next
  case (Cons f0 rest)
  then have h: "hd fs = f0" by simp
  have eq: "concat_frames fs =
     (if \<forall>f \<in> set fs. columns f = columns (hd fs)
      then Inr \<lparr>columns = columns (hd fs), rows = concat (map rows fs)\<rparr>
      else if \<forall>f \<in> set fs. distinct (columns f)
      then Inr \<lparr>columns = uniq [] (concat (map columns fs)),
                rows = concat (map (\<lambda>f. map (\<lambda>r. map (\<lambda>c. (c, cell_of r c))
                               (uniq [] (concat (map columns fs)))) (rows f)) fs)\<rparr>
      else Inl InvalidIndexError)"
    unfolding h unfolding concat_frames_def Cons list.case Let_def ..
  show thesis
  proof (cases "\<forall>f \<in> set fs. columns f = columns (hd fs)")
    case True
    from assms have "t = \<lparr>columns = columns (hd fs), rows = concat (map rows fs)\<rparr>"
      unfolding eq if_P [OF True] by simp
    then have "columns t = columns (hd fs)" "rows t = concat (map rows fs)" by simp_all
    with True show thesis by (intro same)
  next
    case False
    show thesis
    proof (cases "\<forall>f \<in> set fs. distinct (columns f)")
      case d: True
      from assms have "t = \<lparr>columns = uniq [] (concat (map columns fs)),
                rows = concat (map (\<lambda>f. map (\<lambda>r. map (\<lambda>c. (c, cell_of r c))
                               (uniq [] (concat (map columns fs)))) (rows f)) fs)\<rparr>"
        unfolding eq if_not_P [OF False] if_P [OF d] by simp
      then have "columns t = uniq [] (concat (map columns fs))"
        "rows t = concat (map (\<lambda>f. map (\<lambda>r. map (\<lambda>c. (c, cell_of r c))
                               (uniq [] (concat (map columns fs)))) (rows f)) fs)"
        by simp_all
      with d show thesis by (intro union)
    next
      case nd: False
      from assms show thesis
        unfolding eq if_not_P [OF False] if_not_P [OF nd] by simp
    qed
  qed
qed

lemma concat_frames_Inr:
  assumes "concat_frames fs = Inr t"
  shows "\<And>f. f \<in> set fs \<Longrightarrow> set (columns f) \<subseteq> set (columns t)"
    and "(\<And>f. f \<in> set fs \<Longrightarrow> set (columns f) \<subseteq> S) \<Longrightarrow>
         (\<And>f r. f \<in> set fs \<Longrightarrow> r \<in> set (rows f) \<Longrightarrow> set (map fst r) \<subseteq> S) \<Longrightarrow>
         r \<in> set (rows t) \<Longrightarrow> set (map fst r) \<subseteq> S"
proof -
  show "set (columns f) \<subseteq> set (columns t)" if f: "f \<in> set fs" for f
    using assms
  proof (cases rule: concat_frames_cases)
    case same
    with f show ?thesis by simp
  next
    case union
    from f have "set (columns f) \<subseteq> set (concat (map columns fs))" by auto
    with union(2) show ?thesis by (simp add: set_uniq)
  qed
  show "set (map fst r) \<subseteq> S"
    if c: "\<And>f. f \<in> set fs \<Longrightarrow> set (columns f) \<subseteq> S"
      and l: "\<And>f r. f \<in> set fs \<Longrightarrow> r \<in> set (rows f) \<Longrightarrow> set (map fst r) \<subseteq> S"
      and r: "r \<in> set (rows t)"
    using assms
  proof (cases rule: concat_frames_cases)
    case same
    with r obtain f where "f \<in> set fs" "r \<in> set (rows f)" by auto
    then show ?thesis by (rule l)
  next
    case union
    let ?cs = "uniq [] (concat (map columns fs))"
    from union(3) r obtain r0 where "r = map (\<lambda>c. (c, cell_of r0 c)) ?cs" by auto
    then have "set (map fst r) = set ?cs" by (simp add: comp_def)
    also have "\<dots> \<subseteq> S" using c by (auto simp: set_uniq)
    finally show ?thesis .
  qed
qed

lemma concat_sources_Some:
  assumes "concat_sources U a b = Inr (Some all_df)"
  obtains fk fr t where "standardized standardize_kci a = Inr fk"
    "standardized standardize_riss b = Inr fr" "fk @ fr \<noteq> []"
    "concat_frames (fk @ fr) = Inr t"
    "all_df = assign (pys ''pub_year'')
                (\<lambda>r. year_normalize U (cell_of r (pys ''pub_year''))) t"
proof (cases "standardized standardize_kci a")
  case (Inl e)
  with assms show thesis by (simp add: concat_sources_def bindE_def)
next
  case fk: (Inr fk)
  show thesis
  proof (cases "standardized standardize_riss b")
    case (Inl e)
    with assms fk show thesis by (simp add: concat_sources_def bindE_def)
  next
    case fr: (Inr fr)
    show thesis
    proof (cases "fk @ fr = []")
      case True
      with assms fk fr show thesis by (simp add: concat_sources_def bindE_def)
    next
      case ne: False
      then have nf: "(fk = [] \<and> fr = []) = False" by simp
      show thesis
      proof (cases "concat_frames (fk @ fr)")
        case (Inl e)
        with assms fk fr nf show thesis by (simp add: concat_sources_def bindE_def Let_def)
      next
        case (Inr t)
        with assms fk fr nf have "all_df = assign (pys ''pub_year'')
            (\<lambda>r. year_normalize U (cell_of r (pys ''pub_year''))) t"
          by (simp add: concat_sources_def bindE_def Let_def)
        with fk fr ne Inr show thesis by (rule that)
      qed
    qed
  qed
qed

lemma standardized_frames_within:
  assumes fk: "standardized standardize_kci a = Inr fk"
    and fr: "standardized standardize_riss b = Inr fr" and f: "f \<in> set (fk @ fr)"
  shows "set (columns f) \<subseteq> set riss_keep"
    and "pys ''doi'' \<in> set (columns f)"
    and "r \<in> set (rows f) \<Longrightarrow> set (map fst r) \<subseteq> set riss_keep"
proof -
  from f have "f \<in> set fk \<or> f \<in> set fr" by simp
  then have "set (columns f) \<subseteq> set riss_keep \<and> pys ''doi'' \<in> set (columns f)
      \<and> (\<forall>r \<in> set (rows f). set (map fst r) \<subseteq> set riss_keep)"
  proof
    assume "f \<in> set fk"
    with fk obtain f0 where s: "standardize_kci f0 = Inr f" by (blast dest: standardized_Inr)
    note c = standardize_kci_Inr(1) [OF s] and l = standardize_kci_Inr(2) [OF s]
    from c canon_sub_keep have 1: "set (columns f) \<subseteq> set riss_keep" by simp
    from c doi_in_canon have 2: "pys ''doi'' \<in> set (columns f)" by simp
    from l canon_sub_keep have 3: "\<forall>r \<in> set (rows f). set (map fst r) \<subseteq> set riss_keep"
      by blast
    from 1 2 3 show ?thesis by (intro conjI)
  next
    assume "f \<in> set fr"
    with fr obtain f0 where s: "standardize_riss f0 = Inr f" by (blast dest: standardized_Inr)
    note c = standardize_riss_Inr(1) [OF s] and l = standardize_riss_Inr(2) [OF s]
    from c have 1: "set (columns f) \<subseteq> set riss_keep" by simp
    from c doi_in_keep have 2: "pys ''doi'' \<in> set (columns f)" by simp
    from 1 2 l show ?thesis by (intro conjI)
  qed
  then show "set (columns f) \<subseteq> set riss_keep" and "pys ''doi'' \<in> set (columns f)"
    and "r \<in> set (rows f) \<Longrightarrow> set (map fst r) \<subseteq> set riss_keep" by blast+
qed

lemma concat_sources_table:
  assumes "concat_sources U a b = Inr (Some all_df)"
  shows "pys ''doi'' \<in> set (columns all_df)"
    and "r \<in> set (rows all_df) \<Longrightarrow> pys ''_title_key'' \<notin> set (map fst r)"
proof -
  from assms obtain fk fr t where fk: "standardized standardize_kci a = Inr fk"
    and fr: "standardized standardize_riss b = Inr fr" and ne: "fk @ fr \<noteq> []"
    and t: "concat_frames (fk @ fr) = Inr t"
    and a: "all_df = assign (pys ''pub_year'')
                (\<lambda>r. year_normalize U (cell_of r (pys ''pub_year''))) t"
    by (rule concat_sources_Some)
  from ne obtain f where f: "f \<in> set (fk @ fr)" by (cases "fk @ fr") auto
  from standardized_frames_within(2) [OF fk fr f] concat_frames_Inr(1) [OF t f]
  have "pys ''doi'' \<in> set (columns t)" by blast
  with a show "pys ''doi'' \<in> set (columns all_df)" by (simp add: assign_def)
  show "pys ''_title_key'' \<notin> set (map fst r)" if r: "r \<in> set (rows all_df)"
  proof -
    from r a obtain r0 where r0: "r0 \<in> set (rows t)"
      and rr: "r = set_cell (pys ''pub_year'') (year_normalize U (cell_of r0 (pys ''pub_year''))) r0"
      by (auto simp: assign_def)
    have "set (map fst r0) \<subseteq> set riss_keep"
    proof (rule concat_frames_Inr(2) [OF t _ _ r0])
      show "set (columns f) \<subseteq> set riss_keep" if "f \<in> set (fk @ fr)" for f
        using fk fr that by (rule standardized_frames_within(1))
      show "set (map fst r) \<subseteq> set riss_keep" if "f \<in> set (fk @ fr)" "r \<in> set (rows f)" for f r
        using fk fr that by (rule standardized_frames_within(3))
    qed
    with labels_set_cell [of "pys ''pub_year''" _ r0] rr
    have "set (map fst r) \<subseteq> insert (pys ''pub_year'') (set riss_keep)" by blast
    with pub_year_in_canon canon_sub_keep have "set (map fst r) \<subseteq> set riss_keep" by blast
    with key_not_in_keep show ?thesis by blast
  qed
qed

section \<open>The rows of a merged table\<close>

lemma dedup_rows:
  assumes "pys ''doi'' \<in> set (columns f)"
  shows "rows (dedup U f) = merged_rows U (rows f)"
proof -
  let ?k = "pys ''_title_key''"
  let ?d = "drop_dups (\<lambda>r. cell_of r (pys ''doi'')) [] (rows f)"
  have "drop_dups (\<lambda>r. cell_of r ?k) [] (map (\<lambda>r. set_cell ?k (title_key U r) r) ?d)
          = map (\<lambda>r. set_cell ?k (title_key U r) r) (drop_dups (title_key U) [] ?d)"
    by (rule drop_dups_map) (simp add: cell_of_set_cell)
  then show ?thesis
    using assms
    by (simp add: dedup_def drop_duplicates_def assign_def drop_col_def Let_def
        merged_rows_def clean_row_def comp_def)
qed

lemma merge_frames_Inr:
  assumes "merge_frames U a b = Inr out"
  obtains (none) "concat_sources U a b = Inr None" "out = \<lparr>columns = canon_cols, rows = []\<rparr>"
  | (some) all_df where "concat_sources U a b = Inr (Some all_df)" "out = dedup U all_df"
proof (cases "concat_sources U a b")
  case (Inl e)
  with assms show thesis by (simp add: merge_frames_def bindE_def)
next
  case (Inr t)
  show thesis
  proof (cases t)
    case None
    with assms Inr have "out = \<lparr>columns = canon_cols, rows = []\<rparr>"
      by (simp add: merge_frames_def bindE_def)
    with Inr None show thesis by (auto intro: none)
  next
    case (Some all_df)
    with assms Inr have "out = dedup U all_df" by (simp add: merge_frames_def bindE_def)
    with Inr Some show thesis by (auto intro: some)
  qed
qed

lemma merged_rows_plain:
  assumes "\<And>r. r \<in> set rs \<Longrightarrow> pys ''_title_key'' \<notin> set (map fst r)"
  shows "merged_rows U rs
           = drop_dups (title_key U) [] (drop_dups (\<lambda>r. cell_of r (pys ''doi'')) [] rs)"
proof -
  let ?xs = "drop_dups (title_key U) [] (drop_dups (\<lambda>r. cell_of r (pys ''doi'')) [] rs)"
  have "set ?xs \<subseteq> set (drop_dups (\<lambda>r. cell_of r (pys ''doi'')) [] rs)"
    by (rule drop_dups_set)
  also have "\<dots> \<subseteq> set rs" by (rule drop_dups_set)
  finally have "set ?xs \<subseteq> set rs" .
  then have "clean_row U r = r" if "r \<in> set ?xs" for r
    using that assms by (intro clean_row_id) blast
  then have "map (clean_row U) ?xs = ?xs" by (intro map_idI)
  then show ?thesis by (simp add: merged_rows_def)
qed

lemma merge_frames_rows:
  assumes "merge_frames U a b = Inr out" and "concat_sources U a b = Inr (Some all_df)"
  shows "rows out = drop_dups (title_key U) []
                      (drop_dups (\<lambda>r. cell_of r (pys ''doi'')) [] (rows all_df))"
  using assms(1)
proof (cases rule: merge_frames_Inr)
  case none
  with assms(2) show ?thesis by simp
next
  case (some t)
  with assms(2) have o: "out = dedup U all_df" by simp
  from assms(2) have "pys ''doi'' \<in> set (columns all_df)" by (rule concat_sources_table(1))
  then have "rows (dedup U all_df) = merged_rows U (rows all_df)" by (rule dedup_rows)
  also have "\<dots> = drop_dups (title_key U) []
                      (drop_dups (\<lambda>r. cell_of r (pys ''doi'')) [] (rows all_df))"
    using assms(2) by (intro merged_rows_plain concat_sources_table(2))
  finally show ?thesis using o by simp
qed

section \<open>Claims about the merge\<close>

text \<open>
  C2. The arguments are tables as the collectors build them (\<open>input_ok\<close>). In every table
  that \<open>merge_frames\<close> returns, the values of the column \<open>doi\<close> are pairwise distinct, the
  empty string included, so that at most one row with an empty \<open>doi\<close> is left; and every
  row that is left is the first row with its \<open>doi\<close> in the concatenated table: a later
  row with the same \<open>doi\<close>, empty or not, is dropped whatever its title is.
\<close>

theorem merge_frames_doi_first:
  assumes "input_ok df_kci" and "input_ok df_riss"
    and "merge_frames U df_kci df_riss = Inr out"
  shows "distinct (col (pys ''doi'') out)
       \<and> length (filter (\<lambda>v. v = Str []) (col (pys ''doi'') out)) \<le> 1
       \<and> (\<forall>all_df. concat_sources U df_kci df_riss = Inr (Some all_df) \<longrightarrow>
            (\<forall>x \<in> set (rows out).
               find (\<lambda>r. cell_of r (pys ''doi'') = cell_of x (pys ''doi'')) (rows all_df)
                 = Some x))"
proof -
  have d: "distinct (col (pys ''doi'') out)"
    using assms(3)
  proof (cases rule: merge_frames_Inr)
    case none
    then show ?thesis by (simp add: col_def)
  next
    case (some all_df)
    from merge_frames_rows [OF assms(3) some(1)]
    show ?thesis
      by (simp add: col_def drop_dups_keeps_distinct drop_dups_distinct)
  qed
  then have e: "length (filter (\<lambda>v. v = Str []) (col (pys ''doi'') out)) \<le> 1"
    by (rule distinct_map_filter_le1)
  have f: "find (\<lambda>r. cell_of r (pys ''doi'') = cell_of x (pys ''doi'')) (rows all_df) = Some x"
    if c: "concat_sources U df_kci df_riss = Inr (Some all_df)" and x: "x \<in> set (rows out)"
    for all_df x
  proof -
    from merge_frames_rows [OF assms(3) c] x
    have "x \<in> set (drop_dups (title_key U) []
                   (drop_dups (\<lambda>r. cell_of r (pys ''doi'')) [] (rows all_df)))"
      by simp
    then have "x \<in> set (drop_dups (\<lambda>r. cell_of r (pys ''doi'')) [] (rows all_df))"
      by (rule subsetD [OF drop_dups_set])
    then show ?thesis by (rule drop_dups_first)
  qed
  from d e f show ?thesis by blast
qed

theorem merge_frames_doi_first_witness:
  "col (pys ''doi'') (projr (merge_frames ascii_db (Some kci_results) (Some riss_results)))
     = [Str (pys ''10.1/x''), Str []]
   \<and> distinct (col (pys ''doi'')
        (projr (merge_frames ascii_db (Some kci_results) (Some riss_results))))
   \<and> list_all
        (\<lambda>x. find (\<lambda>r. cell_of r (pys ''doi'') = cell_of x (pys ''doi''))
          (rows (the (projr (concat_sources ascii_db (Some kci_results) (Some riss_results)))))
        = Some x)
        (rows (projr (merge_frames ascii_db (Some kci_results) (Some riss_results))))"
proof -
  let ?m = "merge_frames ascii_db (Some kci_results) (Some riss_results)"
  let ?c = "concat_sources ascii_db (Some kci_results) (Some riss_results)"
  have k: "input_ok (Some kci_results)" by (simp add: input_ok_def kci_results_def pys_def)
  have r: "input_ok (Some riss_results)" by (simp add: input_ok_def riss_results_def pys_def)
  have "\<not> isl ?m" by code_simp
  then have m: "?m = Inr (projr ?m)" by simp
  have "\<not> isl ?c" "projr ?c \<noteq> None" by code_simp+
  then have c: "?c = Inr (Some (the (projr ?c)))" by simp
  have v: "col (pys ''doi'') (projr ?m) = [Str (pys ''10.1/x''), Str []]" by code_simp
  from merge_frames_doi_first [OF k r m] c v show ?thesis
    unfolding list_all_iff by blast
qed

text \<open>
  C1. The first pass is meant to spare the records without a \<open>doi\<close> (the comment of line
  128 sets up the title key for them), but \<open>drop_duplicates(subset=["doi"])\<close> takes the
  empty string for a value like any other. Two RISS results, which never have a \<open>doi\<close>,
  with the title keys \<open>a\<close> and \<open>b\<close>: the first pass drops the second one, and the merged
  table has the first one only.
\<close>

theorem merge_drops_record_without_doi:
  "map_sum id (map_option (col (pys ''doi''))) (concat_sources ascii_db None (Some riss_results))
     = Inr (Some [Str [], Str []])
   \<and> map_sum id (map_option (\<lambda>t. map (title_key ascii_db) (rows t)))
       (concat_sources ascii_db None (Some riss_results))
     = Inr (Some [Str (pys ''a''), Str (pys ''b'')])
   \<and> map_sum id (map_option (\<lambda>t. col (pys ''title'') (drop_duplicates (pys ''doi'') t)))
       (concat_sources ascii_db None (Some riss_results))
     = Inr (Some [Str (pys ''A'')])
   \<and> map_sum id (col (pys ''title'')) (merge_frames ascii_db None (Some riss_results))
     = Inr [Str (pys ''A'')]"
  by code_simp
section \<open>Claims about the year\<close>


lemma run_at_Suc: "run_at dg (c # cs) (Suc i) = run_at dg cs i"
  by (auto simp: run_at_def)

lemma run_at_0: "run_at dg s 0 = (4 \<le> length s \<and> list_all dg (take 4 s))"
  by (simp add: run_at_def)

lemma str_extract_d4_short: "length s < 4 \<Longrightarrow> str_extract_d4 dg s = NaN"
  by (induction s) auto

lemma str_extract_d4_head: "run_at dg s 0 \<Longrightarrow> str_extract_d4 dg s = Str (take 4 s)"
  by (cases s) (auto simp: run_at_0)

lemma str_extract_d4_none: "(\<And>i. \<not> run_at dg s i) \<Longrightarrow> str_extract_d4 dg s = NaN"
proof (induction s)
  case Nil
  then show ?case by simp
next
  case (Cons c cs)
  have "\<not> run_at dg cs i" for i using Cons.prems [of "Suc i"] by (simp add: run_at_Suc)
  then have "str_extract_d4 dg cs = NaN" by (rule Cons.IH)
  moreover from Cons.prems [of 0] have "\<not> (4 \<le> length (c # cs) \<and> list_all dg (take 4 (c # cs)))"
    by (metis run_at_0)
  ultimately show ?case by (simp del: take_Suc_Cons)
qed

lemma str_extract_d4_first:
  "str_extract_d4 dg s = Str y \<Longrightarrow>
     \<exists>i. run_at dg s i \<and> (\<forall>j<i. \<not> run_at dg s j) \<and> y = take 4 (drop i s)"
proof (induction s)
  case Nil
  then show ?case by simp
next
  case (Cons c cs)
  show ?case
  proof (cases "run_at dg (c # cs) 0")
    case True
    then have "str_extract_d4 dg (c # cs) = Str (take 4 (c # cs))" by (rule str_extract_d4_head)
    with Cons.prems have "y = take 4 (drop 0 (c # cs))" by simp
    with True show ?thesis by blast
  next
    case False
    then have "\<not> (4 \<le> length (c # cs) \<and> list_all dg (take 4 (c # cs)))" by (metis run_at_0)
    then have "str_extract_d4 dg (c # cs) = str_extract_d4 dg cs"
      unfolding str_extract_d4.simps by (rule if_not_P)
    with Cons.prems have "str_extract_d4 dg cs = Str y" by (simp only:)
    then obtain i where i: "run_at dg cs i" "\<forall>j<i. \<not> run_at dg cs j" "y = take 4 (drop i cs)"
      using Cons.IH by blast
    have "\<not> run_at dg (c # cs) j" if "j < Suc i" for j
    proof (cases j)
      case 0
      with False show ?thesis by simp
    next
      case (Suc k)
      with that i(2) show ?thesis by (simp add: run_at_Suc)
    qed
    with i(1,3) have "run_at dg (c # cs) (Suc i) \<and> (\<forall>j<Suc i. \<not> run_at dg (c # cs) j)
        \<and> y = take 4 (drop (Suc i) (c # cs))"
      by (simp add: run_at_Suc)
    then show ?thesis ..
  qed
qed

lemma str_extract_d4_run:
  "run_at dg s i \<Longrightarrow> (\<forall>j<i. \<not> run_at dg s j) \<Longrightarrow>
     str_extract_d4 dg s = Str (take 4 (drop i s))"
proof (induction s arbitrary: i)
  case Nil
  then show ?case by (simp add: run_at_def)
next
  case (Cons c cs)
  show ?case
  proof (cases i)
    case 0
    with Cons.prems(1) have "str_extract_d4 dg (c # cs) = Str (take 4 (c # cs))"
      by (simp only: str_extract_d4_head)
    with 0 show ?thesis by simp
  next
    case (Suc k)
    with Cons.prems(2) have "\<not> run_at dg (c # cs) 0" by simp
    then have "\<not> (4 \<le> length (c # cs) \<and> list_all dg (take 4 (c # cs)))" by (metis run_at_0)
    then have e: "str_extract_d4 dg (c # cs) = str_extract_d4 dg cs"
      unfolding str_extract_d4.simps by (rule if_not_P)
    from Cons.prems(1) Suc have r: "run_at dg cs k" by (simp add: run_at_Suc)
    have "\<not> run_at dg cs j" if "j < k" for j
    proof -
      from that Suc have "Suc j < i" by simp
      with Cons.prems(2) have "\<not> run_at dg (c # cs) (Suc j)" by blast
      then show ?thesis by (simp add: run_at_Suc)
    qed
    then have "\<forall>j<k. \<not> run_at dg cs j" by blast
    with r have "str_extract_d4 dg cs = Str (take 4 (drop k cs))" by (rule Cons.IH)
    with e Suc show ?thesis by simp
  qed
qed

lemma str_extract_d4_digits:
  "str_extract_d4 dg s = Str y \<Longrightarrow> length y = 4 \<and> list_all dg y"
  by (auto dest!: str_extract_d4_first simp: run_at_def)

lemma astype_str_nan: "length (astype_str NaN) < 4"
  by (simp add: astype_str_def pys_def)

lemma year_normalize_idem: "year_normalize U (year_normalize U v) = year_normalize U v"
proof (cases "year_normalize U v")
  case (Str y)
  then have "length y = 4 \<and> list_all (is_digit U) y"
    unfolding year_normalize_def by (rule str_extract_d4_digits)
  then have "run_at (is_digit U) y 0" by (simp add: run_at_0)
  then have "str_extract_d4 (is_digit U) y = Str (take 4 y)" by (rule str_extract_d4_head)
  moreover from \<open>length y = 4 \<and> list_all (is_digit U) y\<close> have "take 4 y = y" by simp
  ultimately show ?thesis using Str by (simp add: year_normalize_def astype_str_def)
next
  case NaN
  then show ?thesis
    by (simp add: year_normalize_def str_extract_d4_short astype_str_nan)
qed

text \<open>
  C5, as amended. With the ASCII digits in the class \<open>\d\<close>, the values \<open>2023\<close> followed
  by the Hangul syllable U+B144, \<open>2023.05\<close> and \<open>2023\<close> all give \<open>2023\<close>. A value that has
  a run of four digits is replaced by its leftmost run, and what year normalization
  returns as a string is always that leftmost run. A value without such a run becomes
  the missing value NaN (no error is raised), which is not the empty string.
\<close>

theorem year_normalize_first_run:
  assumes "is_digit U 48" "is_digit U 50" "is_digit U 51"
  shows "year_normalize U (Str [50, 48, 50, 51, 45380]) = Str (pys ''2023'')
       \<and> year_normalize U (Str (pys ''2023.05'')) = Str (pys ''2023'')
       \<and> year_normalize U (Str (pys ''2023'')) = Str (pys ''2023'')
       \<and> (\<forall>i. run_at (is_digit U) s i \<and> (\<forall>j<i. \<not> run_at (is_digit U) s j)
            \<longrightarrow> year_normalize U (Str s) = Str (take 4 (drop i s)))
       \<and> ((\<forall>i. \<not> run_at (is_digit U) s i) \<longrightarrow> year_normalize U (Str s) = NaN)
       \<and> (\<forall>y. year_normalize U (Str s) = Str y \<longrightarrow>
            (\<exists>i. run_at (is_digit U) s i \<and> (\<forall>j<i. \<not> run_at (is_digit U) s j)
                 \<and> y = take 4 (drop i s)))"
proof -
  have 1: "year_normalize U (Str [50, 48, 50, 51, 45380]) = Str (pys ''2023'')"
    using assms by (simp add: year_normalize_def astype_str_def pys_def)
  have 2: "year_normalize U (Str (pys ''2023.05'')) = Str (pys ''2023'')"
    using assms by (simp add: year_normalize_def astype_str_def pys_def)
  have 3: "year_normalize U (Str (pys ''2023'')) = Str (pys ''2023'')"
    using assms by (simp add: year_normalize_def astype_str_def pys_def)
  have 4: "(\<forall>i. \<not> run_at (is_digit U) s i) \<longrightarrow> year_normalize U (Str s) = NaN"
    by (simp add: year_normalize_def astype_str_def str_extract_d4_none)
  have 5: "\<forall>y. year_normalize U (Str s) = Str y \<longrightarrow>
            (\<exists>i. run_at (is_digit U) s i \<and> (\<forall>j<i. \<not> run_at (is_digit U) s j)
                 \<and> y = take 4 (drop i s))"
    by (auto simp: year_normalize_def astype_str_def dest: str_extract_d4_first)
  have 6: "\<forall>i. run_at (is_digit U) s i \<and> (\<forall>j<i. \<not> run_at (is_digit U) s j)
            \<longrightarrow> year_normalize U (Str s) = Str (take 4 (drop i s))"
    by (simp add: year_normalize_def astype_str_def str_extract_d4_run)
  from 1 2 3 4 5 6 show ?thesis by blast
qed

theorem year_normalize_first_run_witness:
  "year_normalize ascii_db (Str [50, 48, 50, 51, 45380]) = Str (pys ''2023'')
   \<and> year_normalize ascii_db (Str (pys ''n/a'')) = NaN
   \<and> year_normalize ascii_db (Str (pys ''x2023'')) = Str (take 4 (drop 1 (pys ''x2023'')))
   \<and> (\<exists>i. run_at (is_digit ascii_db) (pys ''2023.05'') i
          \<and> (\<forall>j<i. \<not> run_at (is_digit ascii_db) (pys ''2023.05'') j))"
proof -
  have d: "is_digit ascii_db 48" "is_digit ascii_db 50" "is_digit ascii_db 51"
    by (simp_all add: ascii_db_def)
  have n: "\<forall>i. \<not> run_at (is_digit ascii_db) (pys ''n/a'') i"
    by (simp add: run_at_def pys_def)
  have r1: "run_at (is_digit ascii_db) (pys ''x2023'') 1"
    by (simp add: run_at_def pys_def ascii_db_def)
  have r0: "\<forall>j<1. \<not> run_at (is_digit ascii_db) (pys ''x2023'') j"
    by (simp add: run_at_def pys_def ascii_db_def)
  from year_normalize_first_run [OF d, of "pys ''n/a''"] n
  have a: "year_normalize ascii_db (Str [50, 48, 50, 51, 45380]) = Str (pys ''2023'')"
    and b: "year_normalize ascii_db (Str (pys ''n/a'')) = NaN"
    and y: "year_normalize ascii_db (Str (pys ''2023.05'')) = Str (pys ''2023'')" by blast+
  from year_normalize_first_run [OF d, of "pys ''x2023''"] r1 r0
  have c: "year_normalize ascii_db (Str (pys ''x2023'')) = Str (take 4 (drop 1 (pys ''x2023'')))"
    by blast
  from year_normalize_first_run [OF d, of "pys ''2023.05''"] y
  have "\<exists>i. run_at (is_digit ascii_db) (pys ''2023.05'') i
          \<and> (\<forall>j<i. \<not> run_at (is_digit ascii_db) (pys ''2023.05'') j)
          \<and> pys ''2023'' = take 4 (drop i (pys ''2023.05''))" by blast
  with a b c show ?thesis by blast
qed

text \<open>
  C5 as stated fails: \<open>n/a\<close> does not become the empty string.
\<close>

theorem year_normalize_empty_counterexample:
  "year_normalize ascii_db (Str (pys ''n/a'')) \<noteq> Str []"
  by (simp add: year_normalize_def astype_str_def pys_def)

section \<open>Merging a merged table again\<close>

lemma map_fst_overwrite:
  "map fst (map (\<lambda>(l, x). if l = c then (l, v) else (l, x)) r) = map fst r"
  by (induction r) auto

lemma labels_set_cell_eq:
  "map fst (set_cell c v r)
     = (if c \<in> set (map fst r) then map fst r else map fst r @ [c])"
proof (cases "c \<in> set (map fst r)")
  case True
  then have "set_cell c v r = map (\<lambda>(l, x). if l = c then (l, v) else (l, x)) r"
    by (simp add: set_cell_def)
  with True show ?thesis by (simp only: map_fst_overwrite if_True)
next
  case False
  then have "set_cell c v r = r @ [(c, v)]" by (simp add: set_cell_def)
  with False show ?thesis by simp
qed

lemma aligned_assign:
  assumes "aligned f"
  shows "aligned (assign c h f)"
  unfolding aligned_def
proof
  fix r assume "r \<in> set (rows (assign c h f))"
  then obtain r0 where r0: "r0 \<in> set (rows f)" and r: "r = set_cell c (h r0) r0"
    by (auto simp: assign_def)
  from assms r0 have m: "map fst r0 = columns f" by (simp add: aligned_def)
  show "map fst r = columns (assign c h f)"
    unfolding r labels_set_cell_eq m by (simp add: assign_def)
qed

lemma map_fst_relabel: "map fst (map (\<lambda>(l, x). (g l, x)) r) = map g (map fst r)"
  by (induction r) auto

lemma aligned_rename:
  assumes "aligned f"
  shows "aligned (rename m f)"
  unfolding aligned_def
proof
  fix r assume "r \<in> set (rows (rename m f))"
  then obtain r0 where r0: "r0 \<in> set (rows f)"
    and r: "r = map (\<lambda>(l, x). (rename_label m l, x)) r0"
    by (auto simp: rename_def)
  from assms r0 have m: "map fst r0 = columns f" by (simp add: aligned_def)
  show "map fst r = columns (rename m f)"
    unfolding r map_fst_relabel m by (simp add: rename_def)
qed

lemma fill_missing_Cons:
  "fill_missing (c # cs) f
     = fill_missing cs (if c \<in> set (columns f) then f else assign c (\<lambda>_. Str []) f)"
  by (simp add: fill_missing_def)

lemma aligned_fill_missing: "aligned f \<Longrightarrow> aligned (fill_missing cs f)"
proof (induction cs arbitrary: f)
  case Nil
  then show ?case by (simp add: fill_missing_def)
next
  case (Cons c cs)
  let ?g = "if c \<in> set (columns f) then f else assign c (\<lambda>_. Str []) f"
  from Cons.prems have "aligned ?g" by (simp add: aligned_assign)
  then have "aligned (fill_missing cs ?g)" by (rule Cons.IH)
  then show ?case by (simp only: fill_missing_Cons)
qed

lemma fill_missing_id: "set cs \<subseteq> set (columns f) \<Longrightarrow> fill_missing cs f = f"
proof (induction cs)
  case Nil
  then show ?case by (simp add: fill_missing_def)
next
  case (Cons c cs)
  then have "c \<in> set (columns f)" and "fill_missing cs f = f" by simp_all
  then show ?case by (simp only: fill_missing_Cons if_True)
qed

lemma map_fst_filter: "map fst (filter (\<lambda>(l, x). P l) r) = filter P (map fst r)"
  by (induction r) auto

lemma labels_pick:
  "map fst (concat (map (\<lambda>c. filter (\<lambda>(l, x). l = c) r) cs))
     = concat (map (\<lambda>c. filter (\<lambda>l. l = c) (map fst r)) cs)"
proof (induction cs)
  case Nil
  show ?case by simp
next
  case (Cons c cs)
  have "map fst (filter (\<lambda>(l, x). l = c) r) = filter (\<lambda>l. l = c) (map fst r)"
    by (rule map_fst_filter)
  with Cons show ?case by simp
qed

lemma aligned_select:
  assumes "select cs f = Inr g" and "aligned f"
  shows "aligned g"
  unfolding aligned_def
proof
  fix r assume r: "r \<in> set (rows g)"
  from assms(1) have c: "columns g = concat (map (\<lambda>c. filter (\<lambda>l. l = c) (columns f)) cs)"
    and rs: "rows g = map (\<lambda>r. concat (map (\<lambda>c. filter (\<lambda>(l, x). l = c) r) cs)) (rows f)"
    by (auto simp: select_def split: if_splits)
  from r rs obtain r0 where r0: "r0 \<in> set (rows f)"
    and rr: "r = concat (map (\<lambda>c. filter (\<lambda>(l, x). l = c) r0) cs)" by auto
  from assms(2) r0 have m: "map fst r0 = columns f" by (simp add: aligned_def)
  show "map fst r = columns g" unfolding rr labels_pick m c ..
qed

lemma aligned_concat:
  assumes "concat_frames fs = Inr t" and "\<And>f. f \<in> set fs \<Longrightarrow> aligned f"
  shows "aligned t"
  unfolding aligned_def
proof
  fix r assume r: "r \<in> set (rows t)"
  from assms(1) show "map fst r = columns t"
  proof (cases rule: concat_frames_cases)
    case same
    from r same(3) obtain f where f: "f \<in> set fs" "r \<in> set (rows f)" by auto
    from assms(2) [OF f(1)] f(2) have "map fst r = columns f" by (simp add: aligned_def)
    with same f(1) show ?thesis by simp
  next
    case union
    let ?cs = "uniq [] (concat (map columns fs))"
    from union(3) r obtain r0 where "r = map (\<lambda>c. (c, cell_of r0 c)) ?cs" by auto
    then have "map fst r = ?cs" by (simp add: comp_def)
    with union(2) show ?thesis by simp
  qed
qed

lemma concat_frames_columns_within:
  assumes "concat_frames fs = Inr t" and "\<And>f. f \<in> set fs \<Longrightarrow> set (columns f) \<subseteq> S"
  shows "set (columns t) \<subseteq> S"
  using assms(1)
proof (cases rule: concat_frames_cases)
  case same
  from assms(1) have "fs \<noteq> []" by (auto simp: concat_frames_def)
  then have "hd fs \<in> set fs" by simp
  then have "set (columns (hd fs)) \<subseteq> S" by (rule assms(2))
  with same(1) show ?thesis by simp
next
  case union
  from assms(2) have "set (concat (map columns fs)) \<subseteq> S" by auto
  with union(2) show ?thesis by (simp add: set_uniq)
qed

lemma standardize_kci_aligned:
  assumes "standardize_kci f = Inr g" and "aligned f"
  shows "aligned g"
proof -
  let ?h = "fill_missing (map pys [''authors'', ''venue'', ''pub_year'', ''url'', ''doi'',
                                ''abstract'', ''keywords''])
          (rename [(pys ''journal_name'', pys ''venue'')]
             (assign (pys ''source'') (\<lambda>_. Str (pys ''KCI'')) f))"
  from assms(1) have s: "select canon_cols ?h = Inr g" by (simp add: standardize_kci_def)
  from assms(2) have "aligned ?h"
    by (intro aligned_fill_missing aligned_rename aligned_assign)
  with s show ?thesis by (rule aligned_select)
qed

lemma standardize_riss_aligned:
  assumes "standardize_riss f = Inr g" and "aligned f"
  shows "aligned g"
proof -
  let ?h = "fill_missing riss_keep
          (fill_missing (map pys [''doi'', ''abstract'', ''keywords''])
             (rename [(pys ''author'', pys ''authors''), (pys ''publisher'', pys ''venue'')]
                (assign (pys ''source'') (\<lambda>_. Str (pys ''RISS'')) f)))"
  from assms(1) have s: "select riss_keep ?h = Inr g" by (simp add: standardize_riss_def)
  from assms(2) have "aligned ?h"
    by (intro aligned_fill_missing aligned_rename aligned_assign)
  with s show ?thesis by (rule aligned_select)
qed

lemma input_ok_aligned: "input_ok (Some f) \<Longrightarrow> aligned f"
  by (simp add: input_ok_def aligned_def)

lemma concat_sources_shape:
  assumes c: "concat_sources U a b = Inr (Some all_df)"
    and a: "input_ok a" and b: "input_ok b"
  shows "aligned all_df"
    and "set canon_cols \<subseteq> set (columns all_df)"
    and "set (columns all_df) \<subseteq> set riss_keep"
    and "r \<in> set (rows all_df) \<Longrightarrow>
           year_normalize U (cell_of r (pys ''pub_year'')) = cell_of r (pys ''pub_year'')"
proof -
  from c obtain fk fr t where fk: "standardized standardize_kci a = Inr fk"
    and fr: "standardized standardize_riss b = Inr fr" and ne: "fk @ fr \<noteq> []"
    and t: "concat_frames (fk @ fr) = Inr t"
    and ad: "all_df = assign (pys ''pub_year'')
                (\<lambda>r. year_normalize U (cell_of r (pys ''pub_year''))) t"
    by (rule concat_sources_Some)
  have al: "aligned f" if f: "f \<in> set (fk @ fr)" for f
  proof -
    from f have "f \<in> set fk \<or> f \<in> set fr" by simp
    then show ?thesis
    proof
      assume "f \<in> set fk"
      with fk obtain f0 where "a = Some f0" "standardize_kci f0 = Inr f"
        by (blast dest: standardized_Inr)
      with a show ?thesis by (blast intro: standardize_kci_aligned input_ok_aligned)
    next
      assume "f \<in> set fr"
      with fr obtain f0 where "b = Some f0" "standardize_riss f0 = Inr f"
        by (blast dest: standardized_Inr)
      with b show ?thesis by (blast intro: standardize_riss_aligned input_ok_aligned)
    qed
  qed
  with t have "aligned t" by (rule aligned_concat)
  with ad show "aligned all_df" by (simp add: aligned_assign)
  from ne obtain f where f: "f \<in> set (fk @ fr)" by (cases "fk @ fr") auto
  have "set canon_cols \<subseteq> set (columns f)"
  proof -
    from f have "f \<in> set fk \<or> f \<in> set fr" by simp
    then show ?thesis
    proof
      assume "f \<in> set fk"
      with fk obtain f0 where "standardize_kci f0 = Inr f" by (blast dest: standardized_Inr)
      from standardize_kci_Inr(1) [OF this] show ?thesis by simp
    next
      assume "f \<in> set fr"
      with fr obtain f0 where "standardize_riss f0 = Inr f" by (blast dest: standardized_Inr)
      from standardize_riss_Inr(1) [OF this] canon_sub_keep show ?thesis by simp
    qed
  qed
  with concat_frames_Inr(1) [OF t f] have ct: "set canon_cols \<subseteq> set (columns t)" by blast
  with pub_year_in_canon have py: "pys ''pub_year'' \<in> set (columns t)" by blast
  with ad have cols: "columns all_df = columns t" by (simp add: assign_def)
  from ct cols show "set canon_cols \<subseteq> set (columns all_df)" by simp
  have "set (columns t) \<subseteq> set riss_keep"
  proof (rule concat_frames_columns_within [OF t])
    show "set (columns f) \<subseteq> set riss_keep" if "f \<in> set (fk @ fr)" for f
      using fk fr that by (rule standardized_frames_within(1))
  qed
  with cols show "set (columns all_df) \<subseteq> set riss_keep" by simp
  show "year_normalize U (cell_of r (pys ''pub_year'')) = cell_of r (pys ''pub_year'')"
    if "r \<in> set (rows all_df)"
  proof -
    from that ad obtain r0 where
      "r = set_cell (pys ''pub_year'') (year_normalize U (cell_of r0 (pys ''pub_year''))) r0"
      by (auto simp: assign_def)
    then have "cell_of r (pys ''pub_year'') = year_normalize U (cell_of r0 (pys ''pub_year''))"
      by (simp add: cell_of_set_cell)
    then show ?thesis by (simp add: year_normalize_idem)
  qed
qed

lemma dedup_columns:
  "pys ''_title_key'' \<notin> set (columns f) \<Longrightarrow> columns (dedup U f) = columns f"
  by (simp add: dedup_def Let_def drop_col_def assign_def drop_duplicates_def)

lemma merge_frames_shape:
  assumes m: "merge_frames U a b = Inr out" and a: "input_ok a" and b: "input_ok b"
  shows "aligned out"
    and "set canon_cols \<subseteq> set (columns out)"
    and "set (columns out) \<subseteq> set riss_keep"
    and "\<forall>r \<in> set (rows out).
           year_normalize U (cell_of r (pys ''pub_year'')) = cell_of r (pys ''pub_year'')"
    and "distinct (map (\<lambda>r. cell_of r (pys ''doi'')) (rows out))"
    and "distinct (map (title_key U) (rows out))"
proof -
  have "aligned out \<and> set canon_cols \<subseteq> set (columns out)
      \<and> set (columns out) \<subseteq> set riss_keep
      \<and> (\<forall>r \<in> set (rows out).
           year_normalize U (cell_of r (pys ''pub_year'')) = cell_of r (pys ''pub_year''))
      \<and> distinct (map (\<lambda>r. cell_of r (pys ''doi'')) (rows out))
      \<and> distinct (map (title_key U) (rows out))"
    using m
  proof (cases rule: merge_frames_Inr)
    case none
    with canon_sub_keep show ?thesis by (simp add: aligned_def)
  next
    case (some all_df)
    note sh = concat_sources_shape [OF some(1) a b]
    note rw = merge_frames_rows [OF m some(1)]
    let ?d = "drop_dups (\<lambda>r. cell_of r (pys ''doi'')) [] (rows all_df)"
    have "set (rows out) \<subseteq> set ?d" unfolding rw by (rule drop_dups_set)
    also have "\<dots> \<subseteq> set (rows all_df)" by (rule drop_dups_set)
    finally have sub: "set (rows out) \<subseteq> set (rows all_df)" .
    from sh(3) key_not_in_keep have "pys ''_title_key'' \<notin> set (columns all_df)" by blast
    with some(2) have cols: "columns out = columns all_df" by (simp add: dedup_columns)
    from sh(1) sub cols have 1: "aligned out" by (auto simp: aligned_def)
    from sh(2) cols have 2: "set canon_cols \<subseteq> set (columns out)" by simp
    from sh(3) cols have 3: "set (columns out) \<subseteq> set riss_keep" by simp
    from sh(4) sub have 4: "\<forall>r \<in> set (rows out).
           year_normalize U (cell_of r (pys ''pub_year'')) = cell_of r (pys ''pub_year'')"
      by blast
    have "distinct (map (\<lambda>r. cell_of r (pys ''doi'')) ?d)" by (rule drop_dups_distinct)
    then have 5: "distinct (map (\<lambda>r. cell_of r (pys ''doi'')) (rows out))"
      unfolding rw by (rule drop_dups_keeps_distinct)
    have 6: "distinct (map (title_key U) (rows out))"
      unfolding rw by (rule drop_dups_distinct)
    from 1 2 3 4 5 6 show ?thesis by (intro conjI)
  qed
  then show "aligned out"
    and "set canon_cols \<subseteq> set (columns out)"
    and "set (columns out) \<subseteq> set riss_keep"
    and "\<forall>r \<in> set (rows out).
           year_normalize U (cell_of r (pys ''pub_year'')) = cell_of r (pys ''pub_year'')"
    and "distinct (map (\<lambda>r. cell_of r (pys ''doi'')) (rows out))"
    and "distinct (map (title_key U) (rows out))"
    by blast+
qed

lemma filter_eq_single: "distinct cols \<Longrightarrow> c \<in> set cols \<Longrightarrow> filter (\<lambda>l. l = c) cols = [c]"
  by (induction cols) (auto simp: filter_empty_conv)

lemma pick_columns:
  "distinct cols \<Longrightarrow> set cs \<subseteq> set cols \<Longrightarrow>
   concat (map (\<lambda>c. filter (\<lambda>l. l = c) cols) cs) = cs"
  by (induction cs) (simp_all add: filter_eq_single)

lemma filter_label_single:
  "distinct (map fst r) \<Longrightarrow> c \<in> set (map fst r) \<Longrightarrow>
   filter (\<lambda>(l, x). l = c) r = [(c, cell_of r c)]"
proof (induction r)
  case Nil
  then show ?case by simp
next
  case (Cons p r)
  obtain l x where p: "p = (l, x)" by (cases p)
  show ?case
  proof (cases "l = c")
    case True
    with Cons.prems p have "c \<notin> fst ` set r" by simp
    then have "filter (\<lambda>(l, x). l = c) r = []" by (force simp: filter_empty_conv)
    with True p show ?thesis by (simp add: cell_of_def)
  next
    case False
    with Cons.prems p have "distinct (map fst r)" "c \<in> set (map fst r)" by auto
    then have "filter (\<lambda>(l, x). l = c) r = [(c, cell_of r c)]" by (rule Cons.IH)
    with False p show ?thesis by (simp add: cell_of_def)
  qed
qed

lemma pick_cells:
  "distinct (map fst r) \<Longrightarrow> set cs \<subseteq> set (map fst r) \<Longrightarrow>
   concat (map (\<lambda>c. filter (\<lambda>(l, x). l = c) r) cs) = map (\<lambda>c. (c, cell_of r c)) cs"
proof (induction cs)
  case Nil
  show ?case by simp
next
  case (Cons c cs)
  from Cons.prems have "filter (\<lambda>(l, x). l = c) r = [(c, cell_of r c)]"
    by (intro filter_label_single) simp_all
  moreover from Cons have
    "concat (map (\<lambda>c. filter (\<lambda>(l, x). l = c) r) cs) = map (\<lambda>c. (c, cell_of r c)) cs" by simp
  ultimately show ?case by simp
qed

lemma set_cell_same:
  assumes "distinct (map fst r)" and "c \<in> set (map fst r)"
  shows "set_cell c (cell_of r c) r = r"
proof -
  have "(case p of (l, x) \<Rightarrow> if l = c then (l, cell_of r c) else (l, x)) = p"
    if "p \<in> set r" for p
  proof -
    obtain l x where p: "p = (l, x)" by (cases p)
    show ?thesis
    proof (cases "l = c")
      case True
      with that p have "(c, x) \<in> set r" by simp
      with assms(1) have "map_of r c = Some x" by (rule map_of_is_SomeI)
      then have "cell_of r c = x" by (simp add: cell_of_def)
      with True p show ?thesis by simp
    next
      case False
      with p show ?thesis by simp
    qed
  qed
  then have "map (\<lambda>(l, x). if l = c then (l, cell_of r c) else (l, x)) r = r"
    by (intro map_idI)
  with assms(2) show ?thesis by (simp add: set_cell_def)
qed

lemma rename_id:
  assumes "aligned f" and "\<And>l. l \<in> set (columns f) \<Longrightarrow> rename_label m l = l"
  shows "rename m f = f"
proof -
  have c: "map (rename_label m) (columns f) = columns f"
    using assms(2) by (intro map_idI)
  have "map (\<lambda>(l, x). (rename_label m l, x)) r = r" if r: "r \<in> set (rows f)" for r
  proof (rule map_idI)
    fix p assume p: "p \<in> set r"
    obtain l x where lx: "p = (l, x)" by (cases p)
    with p have "l \<in> set (map fst r)" by force
    with assms(1) r have "l \<in> set (columns f)" by (simp add: aligned_def)
    then have "rename_label m l = l" by (rule assms(2))
    with lx show "(case p of (l, x) \<Rightarrow> (rename_label m l, x)) = p" by simp
  qed
  then have "map (map (\<lambda>(l, x). (rename_label m l, x))) (rows f) = rows f"
    by (rule map_idI)
  with c show ?thesis by (simp add: rename_def)
qed

lemma canon_distinct: "distinct canon_cols"
  by (simp add: canon_cols_def pys_def)

lemma source_in_canon: "pys ''source'' \<in> set canon_cols"
  by (simp add: canon_cols_def)

lemma title_in_canon: "pys ''title'' \<in> set canon_cols"
  by (simp add: canon_cols_def)

lemma journal_name_not_in_keep: "pys ''journal_name'' \<notin> set riss_keep"
  by (simp add: riss_keep_def canon_cols_def pys_def)

lemma key_not_in_canon: "pys ''_title_key'' \<notin> set canon_cols"
  using key_not_in_keep canon_sub_keep by blast

lemma kci_fill_in_canon:
  "set (map pys [''authors'', ''venue'', ''pub_year'', ''url'', ''doi'', ''abstract'',
                 ''keywords'']) \<subseteq> set canon_cols"
  by (simp add: canon_cols_def)

lemma labels_as_kci_row: "map fst (as_kci_row r) = canon_cols"
  by (simp add: as_kci_row_def comp_def)

lemma cell_of_tabulate: "c \<in> set cs \<Longrightarrow> cell_of (map (\<lambda>c. (c, h c)) cs) c = h c"
proof -
  assume "c \<in> set cs"
  then have "map_of (map (\<lambda>c. (c, h c)) cs) c = Some (h c)"
    by (induction cs) auto
  then show ?thesis by (simp add: cell_of_def)
qed

lemma cell_of_as_kci_row:
  "c \<in> set canon_cols \<Longrightarrow>
   cell_of (as_kci_row r) c = (if c = pys ''source'' then Str (pys ''KCI'') else cell_of r c)"
  unfolding as_kci_row_def by (rule cell_of_tabulate)

lemma pub_year_not_source: "pys ''pub_year'' \<noteq> pys ''source''"
  by (simp add: pys_def)

lemma doi_not_source: "pys ''doi'' \<noteq> pys ''source''"
  by (simp add: pys_def)

lemma title_not_source: "pys ''title'' \<noteq> pys ''source''"
  by (simp add: pys_def)

lemma standardize_kci_merged:
  assumes al: "aligned out" and d: "distinct (columns out)"
    and c: "set canon_cols \<subseteq> set (columns out)" and k: "set (columns out) \<subseteq> set riss_keep"
  shows "standardize_kci out = Inr \<lparr>columns = canon_cols, rows = map as_kci_row (rows out)\<rparr>"
proof -
  let ?g = "assign (pys ''source'') (\<lambda>_. Str (pys ''KCI'')) out"
  from c source_in_canon have s: "pys ''source'' \<in> set (columns out)" by blast
  then have cg: "columns ?g = columns out" by (simp add: assign_def)
  have rg: "rows ?g = map (set_cell (pys ''source'') (Str (pys ''KCI''))) (rows out)"
    by (simp add: assign_def)
  from al have ag: "aligned ?g" by (rule aligned_assign)
  have "rename_label [(pys ''journal_name'', pys ''venue'')] l = l" if "l \<in> set (columns ?g)" for l
  proof -
    from that cg k have "l \<in> set riss_keep" by auto
    with journal_name_not_in_keep have "l \<noteq> pys ''journal_name''" by blast
    then show ?thesis by (simp add: rename_label_def)
  qed
  with ag have 1: "rename [(pys ''journal_name'', pys ''venue'')] ?g = ?g" by (rule rename_id)
  from kci_fill_in_canon c cg
  have "set (map pys [''authors'', ''venue'', ''pub_year'', ''url'', ''doi'', ''abstract'',
                 ''keywords'']) \<subseteq> set (columns ?g)" by (simp only: subset_trans)
  then have 2: "fill_missing (map pys [''authors'', ''venue'', ''pub_year'', ''url'', ''doi'',
                 ''abstract'', ''keywords'']) ?g = ?g" by (rule fill_missing_id)
  have 3: "standardize_kci out = select canon_cols ?g"
    unfolding standardize_kci_def 1 2 ..
  from d c have 4: "concat (map (\<lambda>c. filter (\<lambda>l. l = c) (columns out)) canon_cols) = canon_cols"
    by (rule pick_columns)
  have 5: "concat (map (\<lambda>c. filter (\<lambda>(l, x). l = c) (set_cell (pys ''source'') (Str (pys ''KCI'')) r))
             canon_cols) = as_kci_row r" if r: "r \<in> set (rows out)" for r
  proof -
    let ?r = "set_cell (pys ''source'') (Str (pys ''KCI'')) r"
    from al r have m: "map fst r = columns out" by (simp add: aligned_def)
    with s have "map fst ?r = columns out" by (simp only: labels_set_cell_eq if_True)
    with d c have "distinct (map fst ?r)" "set canon_cols \<subseteq> set (map fst ?r)" by simp_all
    then have "concat (map (\<lambda>c. filter (\<lambda>(l, x). l = c) ?r) canon_cols)
                 = map (\<lambda>c. (c, cell_of ?r c)) canon_cols" by (rule pick_cells)
    then show ?thesis by (simp add: as_kci_row_def cell_of_set_cell)
  qed
  from c cg have "set canon_cols \<subseteq> set (columns ?g)" by simp
  then have "select canon_cols ?g
      = Inr \<lparr>columns = concat (map (\<lambda>c. filter (\<lambda>l. l = c) (columns ?g)) canon_cols),
              rows = map (\<lambda>r. concat (map (\<lambda>c. filter (\<lambda>(l, x). l = c) r) canon_cols)) (rows ?g)\<rparr>"
    by (simp only: select_def if_True)
  also have "\<dots> = Inr \<lparr>columns = canon_cols, rows = map as_kci_row (rows out)\<rparr>"
    unfolding cg 4 rg using 5 by (simp add: comp_def)
  finally show ?thesis using 3 by simp
qed

lemma remerge:
  assumes al: "aligned out" and d: "distinct (columns out)"
    and c: "set canon_cols \<subseteq> set (columns out)" and k: "set (columns out) \<subseteq> set riss_keep"
    and y: "\<forall>r \<in> set (rows out).
           year_normalize U (cell_of r (pys ''pub_year'')) = cell_of r (pys ''pub_year'')"
    and dd: "distinct (map (\<lambda>r. cell_of r (pys ''doi'')) (rows out))"
    and dt: "distinct (map (title_key U) (rows out))"
    and e: "\<not> present e"
  shows "merge_frames U (Some out) e
           = Inr \<lparr>columns = canon_cols, rows = map as_kci_row (rows out)\<rparr>"
proof -
  let ?K = "\<lparr>columns = canon_cols, rows = map as_kci_row (rows out)\<rparr>"
  from e have se: "standardized standardize_riss e = Inr []"
    by (auto simp: standardized_def present_def split: option.splits)
  show ?thesis
  proof (cases "rows out = []")
    case True
    then have "standardized standardize_kci (Some out) = Inr []"
      by (simp add: standardized_def df_empty_def)
    with se have "concat_sources U (Some out) e = Inr None"
      by (simp add: concat_sources_def bindE_def)
    with True show ?thesis by (simp add: merge_frames_def bindE_def)
  next
    case False
    from c source_in_canon have "columns out \<noteq> []" by auto
    with False have "\<not> df_empty out" by (simp add: df_empty_def)
    moreover from al d c k have "standardize_kci out = Inr ?K" by (rule standardize_kci_merged)
    ultimately have sk: "standardized standardize_kci (Some out) = Inr [?K]"
      by (simp add: standardized_def bindE_def)
    have cf: "concat_frames [?K] = Inr ?K" by (simp add: concat_frames_def)
    have "set_cell (pys ''pub_year'') (year_normalize U (cell_of r (pys ''pub_year''))) r = r"
      if r: "r \<in> set (rows ?K)" for r
    proof -
      from r obtain r0 where r0: "r0 \<in> set (rows out)" and rr: "r = as_kci_row r0" by auto
      from rr have "cell_of r (pys ''pub_year'') = cell_of r0 (pys ''pub_year'')"
        by (simp add: cell_of_as_kci_row pub_year_in_canon pub_year_not_source)
      with y r0 have "year_normalize U (cell_of r (pys ''pub_year'')) = cell_of r (pys ''pub_year'')"
        by simp
      moreover from rr have "distinct (map fst r)" "pys ''pub_year'' \<in> set (map fst r)"
        by (simp_all only: labels_as_kci_row canon_distinct pub_year_in_canon)
      ultimately show ?thesis by (simp only: set_cell_same)
    qed
    then have "map (\<lambda>r. set_cell (pys ''pub_year'')
                      (year_normalize U (cell_of r (pys ''pub_year''))) r) (rows ?K) = rows ?K"
      by (intro map_idI)
    with pub_year_in_canon
    have as: "assign (pys ''pub_year'') (\<lambda>r. year_normalize U (cell_of r (pys ''pub_year''))) ?K = ?K"
      by (simp add: assign_def)
    from sk se cf as have cs: "concat_sources U (Some out) e = Inr (Some ?K)"
      by (simp add: concat_sources_def bindE_def)
    then have m: "merge_frames U (Some out) e = Inr (dedup U ?K)"
      by (simp add: merge_frames_def bindE_def)
    from key_not_in_canon have col: "columns (dedup U ?K) = canon_cols"
      by (simp add: dedup_columns)
    from doi_in_canon have "rows (dedup U ?K) = merged_rows U (rows ?K)"
      by (intro dedup_rows) simp
    also have "\<dots> = drop_dups (title_key U) []
                      (drop_dups (\<lambda>r. cell_of r (pys ''doi'')) [] (rows ?K))"
    proof (rule merged_rows_plain)
      fix r assume "r \<in> set (rows ?K)"
      then have "map fst r = canon_cols" by (auto simp: labels_as_kci_row)
      with key_not_in_canon show "pys ''_title_key'' \<notin> set (map fst r)" by simp
    qed
    also have "drop_dups (\<lambda>r. cell_of r (pys ''doi'')) [] (rows ?K) = rows ?K"
    proof (rule drop_dups_id)
      have eq: "map (\<lambda>r. cell_of r (pys ''doi'')) (rows ?K)
              = map (\<lambda>r. cell_of r (pys ''doi'')) (rows out)"
        by (simp add: comp_def cell_of_as_kci_row doi_in_canon doi_not_source)
      from dd show "distinct (map (\<lambda>r. cell_of r (pys ''doi'')) (rows ?K))"
        unfolding eq .
      show "set (map (\<lambda>r. cell_of r (pys ''doi'')) (rows ?K)) \<inter> set [] = {}" by simp
    qed
    also have "drop_dups (title_key U) [] (rows ?K) = rows ?K"
    proof (rule drop_dups_id)
      have eq: "map (title_key U) (rows ?K) = map (title_key U) (rows out)"
        by (simp add: comp_def title_key_def cell_of_as_kci_row title_in_canon title_not_source)
      from dt show "distinct (map (title_key U) (rows ?K))"
        unfolding eq .
      show "set (map (title_key U) (rows ?K)) \<inter> set [] = {}" by simp
    qed
    finally have "rows (dedup U ?K) = map as_kci_row (rows out)" by simp
    with col have "dedup U ?K = ?K" by (cases "dedup U ?K") simp
    with m show ?thesis by simp
  qed
qed

text \<open>
  C3 as stated fails: the merged table of two KCI and two RISS results has the sources
  KCI and RISS and the columns \<open>doc_type\<close> and \<open>material_type\<close>; merged again with nothing,
  it has the source KCI in both rows and the nine canonical columns only.
\<close>

theorem remerge_changes_source_counterexample:
  "map_sum id (col (pys ''source''))
       (merge_frames ascii_db (Some kci_results) (Some riss_results))
     = Inr [Str (pys ''KCI''), Str (pys ''RISS'')]
   \<and> map_sum id (col (pys ''source''))
       (merge_frames ascii_db
          (Some (projr (merge_frames ascii_db (Some kci_results) (Some riss_results)))) None)
     = Inr [Str (pys ''KCI''), Str (pys ''KCI'')]
   \<and> map_sum id columns (merge_frames ascii_db (Some kci_results) (Some riss_results))
     = Inr riss_keep
   \<and> map_sum id columns
       (merge_frames ascii_db
          (Some (projr (merge_frames ascii_db (Some kci_results) (Some riss_results)))) None)
     = Inr canon_cols"
  by code_simp

text \<open>
  C3, as amended. The arguments are tables as the collectors build them, and their merged
  table has no label twice. Merging the merged table, as the first argument, with no
  table or an empty one gives the same records in the same order, with the cells of the
  columns \<open>title\<close>, \<open>authors\<close>, \<open>venue\<close>, \<open>pub_year\<close>, \<open>url\<close>, \<open>doi\<close>, \<open>abstract\<close> and
  \<open>keywords\<close> as they were; but every \<open>source\<close> is KCI, and the columns \<open>doc_type\<close> and
  \<open>material_type\<close> are gone (\<open>as_kci_row\<close>).
\<close>

theorem remerge_keeps_records:
  assumes "input_ok a" and "input_ok b" and "merge_frames U a b = Inr out"
    and "distinct (columns out)" and "\<not> present e"
  shows "merge_frames U (Some out) e
           = Inr \<lparr>columns = canon_cols, rows = map as_kci_row (rows out)\<rparr>"
proof -
  note sh = merge_frames_shape [OF assms(3) assms(1) assms(2)]
  from sh(1) assms(4) sh(2) sh(3) sh(4) sh(5) sh(6) assms(5) show ?thesis by (rule remerge)
qed

theorem remerge_keeps_records_witness:
  "merge_frames ascii_db
     (Some (projr (merge_frames ascii_db (Some kci_results) (Some riss_results)))) None
   = Inr \<lparr>columns = canon_cols,
          rows = map as_kci_row
                   (rows (projr (merge_frames ascii_db (Some kci_results) (Some riss_results))))\<rparr>
   \<and> col (pys ''title'') (projr (merge_frames ascii_db (Some kci_results) (Some riss_results)))
     = [Str (pys ''C''), Str (pys ''A'')]"
proof -
  let ?m = "merge_frames ascii_db (Some kci_results) (Some riss_results)"
  have k: "input_ok (Some kci_results)" by (simp add: input_ok_def kci_results_def pys_def)
  have r: "input_ok (Some riss_results)" by (simp add: input_ok_def riss_results_def pys_def)
  have "\<not> isl ?m" by code_simp
  then have m: "?m = Inr (projr ?m)" by simp
  have d: "distinct (columns (projr ?m))" by code_simp
  have p: "\<not> present None" by (simp add: present_def)
  have t: "col (pys ''title'') (projr ?m) = [Str (pys ''C''), Str (pys ''A'')]" by code_simp
  from remerge_keeps_records [OF k r m d p] t show ?thesis by (rule conjI)
qed
section \<open>Claims about the query bundle\<close>


lemma set_enum_remdups: "set_enum remdups"
  by (simp add: set_enum_def)

lemma early_in_take:
  assumes d: "distinct ys" and s: "sorted (map f ys)" and x: "x \<in> set ys"
    and c: "card {t \<in> set ys. t \<noteq> x \<and> f t \<le> f x} < n"
  shows "x \<in> set (take n ys)"
proof -
  from x obtain i where i: "i < length ys" "ys ! i = x" by (auto simp: in_set_conv_nth)
  have sub: "set (take i ys) \<subseteq> {t \<in> set ys. t \<noteq> x \<and> f t \<le> f x}"
  proof
    fix t assume "t \<in> set (take i ys)"
    then obtain j where j: "j < i" "ys ! j = t"
      using i(1) by (auto simp: in_set_conv_nth)
    from j(1) i(1) have jl: "j < length ys" by simp
    from d jl i(1) j(1) have "ys ! j \<noteq> ys ! i" by (simp add: nth_eq_iff_index_eq)
    moreover from s j(1) i(1) have "map f ys ! j \<le> map f ys ! i"
      by (intro sorted_nth_mono) simp_all
    with jl i(1) have "f (ys ! j) \<le> f (ys ! i)" by simp
    moreover from jl have "ys ! j \<in> set ys" by simp
    ultimately show "t \<in> {t \<in> set ys. t \<noteq> x \<and> f t \<le> f x}" using j(2) i(2) by simp
  qed
  from d have "distinct (take i ys)" by simp
  then have "card (set (take i ys)) = length (take i ys)" by (rule distinct_card)
  with i(1) have ci: "card (set (take i ys)) = i" by simp
  have "finite {t \<in> set ys. t \<noteq> x \<and> f t \<le> f x}" by simp
  with sub have "card (set (take i ys)) \<le> card {t \<in> set ys. t \<noteq> x \<and> f t \<le> f x}"
    by (intro card_mono)
  with ci c have "i < n" by simp
  with i(1) have "i < length (take n ys)" by simp
  then have "take n ys ! i \<in> set (take n ys)" by (rule nth_mem)
  with \<open>i < n\<close> i(2) show ?thesis by simp
qed

text \<open>
  What \<open>normalize\<close> does guarantee: at most 12 terms, no duplicates, sorted by length;
  and the query is among them when it is not empty and fewer than 12 other distinct
  non-empty terms are at most as long as it is.
\<close>

lemma normalize_bundle_bounds:
  assumes e: "set_enum list_of_set"
  shows "length (normalize list_of_set query csv_terms ai_terms) \<le> 12
       \<and> distinct (normalize list_of_set query csv_terms ai_terms)
       \<and> sorted (map length (normalize list_of_set query csv_terms ai_terms))
       \<and> (query \<noteq> []
            \<and> card (set (filter (\<lambda>t. t \<noteq> [] \<and> t \<noteq> query \<and> length t \<le> length query)
                           (csv_terms @ ai_terms))) < 12
          \<longrightarrow> query \<in> set (normalize list_of_set query csv_terms ai_terms))"
proof -
  let ?B = "filter (\<lambda>t. t \<noteq> []) ([query] @ csv_terms @ ai_terms)"
  let ?ys = "sort_key length (list_of_set ?B)"
  have n: "normalize list_of_set query csv_terms ai_terms = take 12 ?ys"
    by (simp add: normalize_def Let_def)
  from e have d: "distinct ?ys" and st: "set ?ys = set ?B"
    by (simp_all add: set_enum_def)
  have so: "sorted (map length ?ys)" by (rule sorted_sort_key)
  have 1: "length (take 12 ?ys) \<le> 12" by simp
  from d have 2: "distinct (take 12 ?ys)" by simp
  from so have "sorted (take 12 (map length ?ys))" by (rule sorted_wrt_take)
  then have 3: "sorted (map length (take 12 ?ys))" by (simp add: take_map)
  have 4: "query \<in> set (take 12 ?ys)"
    if q: "query \<noteq> []"
      and c: "card (set (filter (\<lambda>t. t \<noteq> [] \<and> t \<noteq> query \<and> length t \<le> length query)
                           (csv_terms @ ai_terms))) < 12"
  proof (rule early_in_take [OF d so])
    from q st show "query \<in> set ?ys" by simp
    have "{t \<in> set ?ys. t \<noteq> query \<and> length t \<le> length query}
        = set (filter (\<lambda>t. t \<noteq> [] \<and> t \<noteq> query \<and> length t \<le> length query)
                           (csv_terms @ ai_terms))"
      unfolding st by auto
    with c show "card {t \<in> set ?ys. t \<noteq> query \<and> length t \<le> length query} < 12" by simp
  qed
  from 1 2 3 4 show ?thesis unfolding n by blast
qed

text \<open>
  C4. The bundle is meant to contain the original query: line 114 puts it first in the
  bundle. Sorting by length and cutting at 12 then loses it: with the query \<open>zz\<close> and the
  twelve mapped terms \<open>a\<close> to \<open>l\<close> the result is the twelve one-letter terms, without
  the query.
\<close>

theorem normalize_drops_query:
  "normalize remdups (pys ''zz'')
      [[97], [98], [99], [100], [101], [102], [103], [104], [105], [106], [107], [108]] []
     = [[97], [98], [99], [100], [101], [102], [103], [104], [105], [106], [107], [108]]
   \<and> pys ''zz'' \<notin> set (normalize remdups (pys ''zz'')
      [[97], [98], [99], [100], [101], [102], [103], [104], [105], [106], [107], [108]] [])"
  by (simp add: normalize_def pys_def)
section \<open>Claims about text and path extraction\<close>

lemma first_present_None:
  "first_present d ks = None \<longleftrightarrow> (\<forall>k \<in> set ks. map_of d k = None)"
  by (induction ks) (auto split: option.splits)

lemma extract_text_fast_no_text:
  assumes "map_of d (pys ''text'') = None" "map_of d (pys ''#text'') = None"
    "map_of d (pys ''content'') = None" "map_of d (pys ''value'') = None"
    and "1 < length d \<or> (\<exists>key value. d = [(key, value)]
            \<and> key \<in> {pys ''lang'', pys ''type'', pys ''id''})"
  shows "extract_text_fast sp rp (PDict d) = []"
proof -
  from assms(2-4) have fp: "first_present d [pys ''#text'', pys ''content'', pys ''value''] = None"
    by (simp add: first_present_None)
  from assms(5) show ?thesis
  proof
    assume "1 < length d"
    then obtain a b rest where "d = a # b # rest"
      by (cases d; cases "tl d") auto
    with assms(1) fp show ?thesis by (simp split: prod.splits)
  next
    assume "\<exists>key value. d = [(key, value)] \<and> key \<in> {pys ''lang'', pys ''type'', pys ''id''}"
    then obtain key "value" where "d = [(key, value)]"
      "key \<in> {pys ''lang'', pys ''type'', pys ''id''}" by blast
    with assms(1) fp show ?thesis by auto
  qed
qed

lemma extract_text_first_value:
  assumes "map_of ((key, value) # rest) (pys ''text'') = None"
    "map_of ((key, value) # rest) (pys ''#text'') = None"
  shows "extract_text sp rp (PDict ((key, value) # rest)) = strip sp (py_str rp value)"
  using assms by simp

lemma follow_append:
  "follow v (xs @ ys) = (case follow v xs of None \<Rightarrow> None | Some w \<Rightarrow> follow w ys)"
  by (induction xs arbitrary: v) (auto split: pyval.splits option.splits)

lemma follow_fails_later:
  assumes il: "i < length keys" and cur: "follow data (take i keys) = Some cur"
    and bad: "\<not> is_dict cur \<or> (\<exists>d. cur = PDict d \<and> map_of d (keys ! i) = None)"
  shows "follow data keys = None"
proof -
  from il have "keys = take i keys @ keys ! i # drop (Suc i) keys"
    by (simp add: id_take_nth_drop [symmetric])
  moreover have "follow cur (keys ! i # drop (Suc i) keys) = None"
    using bad by (auto simp: is_dict_def split: pyval.splits)
  with cur have "follow data (take i keys @ keys ! i # drop (Suc i) keys) = None"
    by (simp add: follow_append)
  ultimately show ?thesis by simp
qed

lemma extract_from_path_missing:
  assumes cur: "follow data (take i path) = Some cur"
    and bad: "(i < length path \<and> (\<exists>d. cur = PDict d \<and> map_of d (path ! i) = None))
              \<or> (i \<le> length path - 1 \<and> \<not> is_dict cur)"
  shows "extract_from_path sp rp data path = Inr []"
proof (cases "i < length (butlast path)")
  case True
  then have t: "take i (butlast path) = take i path" "butlast path ! i = path ! i"
    by (simp_all add: take_butlast nth_butlast)
  from bad have b: "\<not> is_dict cur
      \<or> (\<exists>d. cur = PDict d \<and> map_of d (butlast path ! i) = None)"
    unfolding t by blast
  from cur have c: "follow data (take i (butlast path)) = Some cur" unfolding t .
  from True c b have "follow data (butlast path) = None" by (rule follow_fails_later)
  then show ?thesis by (simp add: extract_from_path_def)
next
  case False
  from bad have "i \<le> length path - 1" by auto
  with False have ie: "i = length path - 1" by simp
  then have t: "take i path = butlast path" by (simp add: butlast_conv_take)
  show ?thesis
  proof (cases "path = []")
    case True
    with bad cur show ?thesis
      by (auto simp: extract_from_path_def is_dict_def split: pyval.splits)
  next
    case ne: False
    with ie have l: "path ! i = last path" by (simp add: last_conv_nth)
    from cur bad show ?thesis unfolding t l using ne
      by (auto simp: extract_from_path_def is_dict_def split: pyval.splits)
  qed
qed

text \<open>
  C6, as amended. A dict without the keys \<open>text\<close> and \<open>#text\<close> is given. In the KCI
  flattener (\<open>_extract_text_fast\<close>), when it has neither \<open>content\<close> nor \<open>value\<close> and has more
  than one entry, or its single entry is named \<open>lang\<close>, \<open>type\<close> or \<open>id\<close>, the result is the
  empty string. The RISS flattener (\<open>_extract_text\<close>) follows another rule: it returns the
  stripped string form of the first entry's value whenever there is an entry, whatever
  the number and the names of the entries (that form may itself be empty), and the
  empty string for the empty dict.
\<close>

theorem extract_text_without_scalar:
  assumes "map_of d (pys ''text'') = None" "map_of d (pys ''#text'') = None"
  shows "(map_of d (pys ''content'') = None \<and> map_of d (pys ''value'') = None
            \<and> (1 < length d \<or> (\<exists>key value. d = [(key, value)]
                   \<and> key \<in> {pys ''lang'', pys ''type'', pys ''id''}))
          \<longrightarrow> extract_text_fast sp rp (PDict d) = [])
       \<and> (\<forall>key value rest. d = (key, value) # rest
            \<longrightarrow> extract_text sp rp (PDict d) = strip sp (py_str rp value))
       \<and> (d = [] \<longrightarrow> extract_text sp rp (PDict d) = [])"
proof -
  have 1: "map_of d (pys ''content'') = None \<and> map_of d (pys ''value'') = None
            \<and> (1 < length d \<or> (\<exists>key value. d = [(key, value)]
                   \<and> key \<in> {pys ''lang'', pys ''type'', pys ''id''}))
          \<longrightarrow> extract_text_fast sp rp (PDict d) = []"
    using assms by (blast intro: extract_text_fast_no_text)
  have 2: "\<forall>key value rest. d = (key, value) # rest
            \<longrightarrow> extract_text sp rp (PDict d) = strip sp (py_str rp value)"
    using assms by (blast intro: extract_text_first_value)
  have 3: "d = [] \<longrightarrow> extract_text sp rp (PDict d) = []" by simp
  from 1 2 3 show ?thesis by blast
qed

theorem extract_text_without_scalar_witness:
  "extract_text_fast (is_space ascii_db) str_unused (PDict [(pys ''lang'', PStr (pys ''ko''))]) = []
   \<and> extract_text (is_space ascii_db) str_unused (PDict [(pys ''lang'', PStr (pys ''ko''))])
       = strip (is_space ascii_db) (py_str str_unused (PStr (pys ''ko'')))"
proof -
  have "map_of [(pys ''lang'', PStr (pys ''ko''))] (pys ''text'') = None"
    "map_of [(pys ''lang'', PStr (pys ''ko''))] (pys ''#text'') = None"
    "map_of [(pys ''lang'', PStr (pys ''ko''))] (pys ''content'') = None"
    "map_of [(pys ''lang'', PStr (pys ''ko''))] (pys ''value'') = None"
    by (simp_all add: pys_def)
  with extract_text_without_scalar [of "[(pys ''lang'', PStr (pys ''ko''))]"
      "is_space ascii_db" str_unused]
  show ?thesis by blast
qed

text \<open>
  C6 as stated fails in the RISS flattener: a node whose single entry is \<open>lang\<close> gives the
  language code, not the empty string.
\<close>

theorem extract_text_lang_counterexample:
  "extract_text (is_space ascii_db) str_unused (PDict [(pys ''lang'', PStr (pys ''ko''))])
     = pys ''ko'' \<and> pys ''ko'' \<noteq> []"
  by (simp add: pys_def ascii_db_def strip_def py_str_def)

text \<open>
  C7. For every tree and every path, the empty one included: when at some step the
  current map lacks the key of the step, or at some step, the last one included, the
  current value is no map, path extraction returns the empty sequence and raises nothing.
  (In these cases the function returns before it evaluates \<open>path[-1]\<close> on an empty path
  and before it extracts any text.)
\<close>

theorem extract_from_path_missing_step:
  assumes "follow data (take i path) = Some cur"
    and "(i < length path \<and> (\<exists>d. cur = PDict d \<and> map_of d (path ! i) = None))
         \<or> (i \<le> length path - 1 \<and> \<not> is_dict cur)"
  shows "extract_from_path sp rp data path = Inr []"
  using assms by (rule extract_from_path_missing)

theorem extract_from_path_missing_step_witness:
  "extract_from_path (is_space ascii_db) str_unused (PDict [(pys ''title'', PStr (pys ''t''))])
     [pys ''keyword-group'', pys ''keyword''] = Inr []
   \<and> extract_from_path (is_space ascii_db) str_unused (PStr (pys ''t'')) [] = Inr []"
proof -
  let ?data = "PDict [(pys ''title'', PStr (pys ''t''))]"
  let ?path = "[pys ''keyword-group'', pys ''keyword'']"
  have 1: "follow ?data (take 0 ?path) = Some ?data" by simp
  have 2: "(0 < length ?path \<and> (\<exists>d. ?data = PDict d \<and> map_of d (?path ! 0) = None))
         \<or> (0 \<le> length ?path - 1 \<and> \<not> is_dict ?data)"
    by (simp add: pys_def)
  have 3: "follow (PStr (pys ''t'')) (take 0 []) = Some (PStr (pys ''t''))" by simp
  have 4: "(0 < length ([] :: pystr list)
             \<and> (\<exists>d. PStr (pys ''t'') = PDict d \<and> map_of d (([] :: pystr list) ! 0) = None))
         \<or> (0 \<le> length ([] :: pystr list) - 1 \<and> \<not> is_dict (PStr (pys ''t'')))"
    by (simp add: is_dict_def)
  from extract_from_path_missing_step [OF 1 2, of "is_space ascii_db" str_unused]
    extract_from_path_missing_step [OF 3 4, of "is_space ascii_db" str_unused]
  show ?thesis by simp
qed
section \<open>Claims about the KCI records\<close>

lemma bindE_Inr_iff: "(bindE m f = Inr y) = (\<exists>x. m = Inr x \<and> f x = Inr y)"
  by (cases m) (simp_all add: bindE_def)

lemma basic_info_title:
  assumes "extract_basic_info sp rp record = Inr a"
  shows "\<exists>article_info title_group article_title title_text.
      py_get record (pys ''articleInfo'') (PDict []) = Inr article_info
    \<and> py_get article_info (pys ''title-group'') (PDict []) = Inr title_group
    \<and> py_get title_group (pys ''article-title'') (PDict []) = Inr article_title
    \<and> title_text_of sp rp article_title = Inr title_text
    \<and> title a = (if title_text \<noteq> [] then title_text else no_title)"
  using assms unfolding extract_basic_info_def bindE_Inr_iff
  by (elim exE conjE) auto

lemma title_text_of_Inr:
  "title_text_of sp rp article_title = Inr title_text \<Longrightarrow>
     (case article_title of
        PList items \<Rightarrow> (\<exists>x rest. items = x # rest \<and> title_text = extract_text_fast sp rp x)
      | _ \<Rightarrow> title_text = extract_text_fast sp rp article_title)"
  by (auto simp: title_text_of_def split: pyval.splits list.splits)

lemma no_title_nonempty: "no_title \<noteq> []"
  by (simp add: no_title_def)

text \<open>
  C8. Whenever \<open>_extract_basic_info\<close> returns an article (a record of the wrong shape
  makes a \<open>.get\<close> raise, and then there is no article), its title is not the empty
  string: the title text is extracted from the first element when \<open>article-title\<close> is a
  list and from the value itself otherwise, and the placeholder \<open>no_title\<close> stands in for
  an empty text.
\<close>

theorem extract_basic_info_title:
  assumes "extract_basic_info sp rp record = Inr a"
  shows "title a \<noteq> []
       \<and> (\<exists>article_info title_group article_title title_text.
            py_get record (pys ''articleInfo'') (PDict []) = Inr article_info
          \<and> py_get article_info (pys ''title-group'') (PDict []) = Inr title_group
          \<and> py_get title_group (pys ''article-title'') (PDict []) = Inr article_title
          \<and> (case article_title of
                PList items \<Rightarrow>
                  (\<exists>x rest. items = x # rest \<and> title_text = extract_text_fast sp rp x)
              | _ \<Rightarrow> title_text = extract_text_fast sp rp article_title)
          \<and> title a = (if title_text = [] then no_title else title_text))"
proof -
  from assms obtain article_info title_group article_title title_text where
    1: "py_get record (pys ''articleInfo'') (PDict []) = Inr article_info"
    and 2: "py_get article_info (pys ''title-group'') (PDict []) = Inr title_group"
    and 3: "py_get title_group (pys ''article-title'') (PDict []) = Inr article_title"
    and 4: "title_text_of sp rp article_title = Inr title_text"
    and 5: "title a = (if title_text \<noteq> [] then title_text else no_title)"
    by (blast dest: basic_info_title)
  from 5 have "title a \<noteq> []" by (simp add: no_title_nonempty)
  moreover from 5 have "title a = (if title_text = [] then no_title else title_text)" by simp
  moreover note 1 2 3 title_text_of_Inr [OF 4]
  ultimately show ?thesis by blast
qed

lemma two_titles_ok:
  "\<exists>a. extract_basic_info (is_space ascii_db) str_unused two_titles = Inr a"
  by (simp add: extract_basic_info_def two_titles_def bindE_def py_get_def dict_get_def
      get_text_def title_text_of_def first_five_def abstract_of_def truthy_def is_dict_def
      extract_keywords_optimized_def extract_from_path_def pys_def)

theorem extract_basic_info_title_witness:
  "title (projr (extract_basic_info (is_space ascii_db) str_unused two_titles)) \<noteq> []"
proof -
  from two_titles_ok obtain a where
    a: "extract_basic_info (is_space ascii_db) str_unused two_titles = Inr a" ..
  from extract_basic_info_title [OF a] show ?thesis by (simp add: a)
qed

section \<open>Claims about the RISS records\<close>

lemma normalize_record_Some:
  "normalize_record sp rp r = Some a \<Longrightarrow> riss_title a \<noteq> []"
  by (auto simp: normalize_record_def Let_def split: pyval.splits if_splits)

lemma normalize_record_dict:
  "normalize_record sp rp (PDict d) =
     (if riss_field sp rp d (pys ''riss.title'') \<noteq> [] then Some (riss_record sp rp d) else None)"
  by (simp add: normalize_record_def riss_record_def Let_def)

lemma riss_title_record: "riss_title (riss_record sp rp d) = riss_field sp rp d (pys ''riss.title'')"
  by (simp add: riss_record_def)

lemma set_map_filter_eq:
  "set (List.map_filter g xs) = {y. \<exists>x. x \<in> set xs \<and> g x = Some y}"
  by (induction xs) (auto split: option.splits)

lemma response_articles:
  assumes "map_of resp (pys ''head'') = Some (PDict h)"
    and "riss_field sp rp h (pys ''Error'') = pys ''0''"
    and "map_of resp (pys ''metadata'') = Some metadata"
    and "metadata = PDict d \<and> records = [metadata] \<or> metadata = PList records"
  shows "extract_articles_from_response sp rp (PDict resp)
           = List.map_filter (normalize_record sp rp) records"
  using assms by (auto simp: extract_articles_from_response_def iterate_def is_dict_def)

lemma response_gate:
  assumes "map_of resp (pys ''head'') = Some (PDict h)"
    and "riss_field sp rp h (pys ''Error'') \<noteq> pys ''0''"
  shows "extract_articles_from_response sp rp (PDict resp) = []"
  using assms by (simp add: extract_articles_from_response_def split: option.splits)

lemma response_kept_iff:
  assumes "map_of resp (pys ''head'') = Some (PDict h)"
    and "riss_field sp rp h (pys ''Error'') = pys ''0''"
    and "map_of resp (pys ''metadata'') = Some metadata"
    and "metadata = PDict d \<or> (\<exists>records. metadata = PList records \<and> PDict d \<in> set records)"
  shows "riss_record sp rp d \<in> set (extract_articles_from_response sp rp (PDict resp))
           \<longleftrightarrow> riss_field sp rp d (pys ''riss.title'') \<noteq> []"
proof -
  from assms(4) obtain records where
    r: "metadata = PDict d \<and> records = [metadata] \<or> metadata = PList records"
    and m: "PDict d \<in> set records" by auto
  from response_articles [OF assms(1-3) r]
  have out: "set (extract_articles_from_response sp rp (PDict resp))
      = {a. \<exists>x. x \<in> set records \<and> normalize_record sp rp x = Some a}"
    by (simp add: set_map_filter_eq)
  show ?thesis
  proof
    assume "riss_record sp rp d \<in> set (extract_articles_from_response sp rp (PDict resp))"
    with out obtain x where "normalize_record sp rp x = Some (riss_record sp rp d)" by auto
    then have "riss_title (riss_record sp rp d) \<noteq> []" by (rule normalize_record_Some)
    then show "riss_field sp rp d (pys ''riss.title'') \<noteq> []" by (simp add: riss_title_record)
  next
    assume "riss_field sp rp d (pys ''riss.title'') \<noteq> []"
    then have "normalize_record sp rp (PDict d) = Some (riss_record sp rp d)"
      by (simp add: normalize_record_dict)
    with m out show "riss_record sp rp d \<in> set (extract_articles_from_response sp rp (PDict resp))"
      by auto
  qed
qed

lemma titled_title: "riss_field (is_space ascii_db) str_unused titled (pys ''riss.title'') = pys ''X''"
  by (simp add: riss_field_def dict_get_def titled_def pys_def strip_def ascii_db_def py_str_def)

text \<open>
  C9, as amended. A response with a head (a map) and metadata is given. If the error
  code extracted from the head is anything but \<open>0\<close> (a missing code included), the output
  is empty, whatever the titles. If the code is \<open>0\<close>, a record that is a map is left out
  of the output if and only if its extracted title is empty.
\<close>

theorem riss_record_kept_iff:
  assumes "map_of resp (pys ''head'') = Some (PDict h)"
    and "map_of resp (pys ''metadata'') = Some metadata"
  shows "(riss_field sp rp h (pys ''Error'') \<noteq> pys ''0''
            \<longrightarrow> extract_articles_from_response sp rp (PDict resp) = [])
       \<and> (riss_field sp rp h (pys ''Error'') = pys ''0''
            \<and> (metadata = PDict d
                \<or> (\<exists>records. metadata = PList records \<and> PDict d \<in> set records))
          \<longrightarrow> (riss_record sp rp d \<in> set (extract_articles_from_response sp rp (PDict resp))
                 \<longleftrightarrow> riss_field sp rp d (pys ''riss.title'') \<noteq> []))"
proof (intro conjI impI)
  assume "riss_field sp rp h (pys ''Error'') \<noteq> pys ''0''"
  with assms(1) show "extract_articles_from_response sp rp (PDict resp) = []"
    by (rule response_gate)
next
  assume a: "riss_field sp rp h (pys ''Error'') = pys ''0''
            \<and> (metadata = PDict d
                \<or> (\<exists>records. metadata = PList records \<and> PDict d \<in> set records))"
  then have 2: "riss_field sp rp h (pys ''Error'') = pys ''0''"
    and 4: "metadata = PDict d
            \<or> (\<exists>records. metadata = PList records \<and> PDict d \<in> set records)" by blast+
  from assms(1) 2 assms(2) 4
  show "riss_record sp rp d \<in> set (extract_articles_from_response sp rp (PDict resp))
                 \<longleftrightarrow> riss_field sp rp d (pys ''riss.title'') \<noteq> []"
    by (rule response_kept_iff)
qed

theorem riss_record_kept_iff_witness:
  "riss_record (is_space ascii_db) str_unused titled
     \<in> set (extract_articles_from_response (is_space ascii_db) str_unused (response_with (pys ''0'')))
   \<and> extract_articles_from_response (is_space ascii_db) str_unused (response_with (pys ''2'')) = []"
proof -
  have e: "riss_field (is_space ascii_db) str_unused
             [(pys ''Error'', PDict [(pys ''text'', PStr code)])] (pys ''Error'')
           = strip (is_space ascii_db) code" for code
    by (simp add: riss_field_def dict_get_def py_str_def)
  have s0: "strip (is_space ascii_db) (pys ''0'') = pys ''0''"
    by (simp add: pys_def strip_def ascii_db_def)
  have s2: "strip (is_space ascii_db) (pys ''2'') \<noteq> pys ''0''"
    by (simp add: pys_def strip_def ascii_db_def)
  have 1: "map_of [(pys ''head'', PDict [(pys ''Error'', PDict [(pys ''text'', PStr code)])]),
                   (pys ''metadata'', PDict titled)] (pys ''head'')
           = Some (PDict [(pys ''Error'', PDict [(pys ''text'', PStr code)])])" for code
    by simp
  have 3: "map_of [(pys ''head'', PDict [(pys ''Error'', PDict [(pys ''text'', PStr code)])]),
                   (pys ''metadata'', PDict titled)] (pys ''metadata'') = Some (PDict titled)"
    for code by (simp add: pys_def)
  have 5: "riss_field (is_space ascii_db) str_unused titled (pys ''riss.title'') \<noteq> []"
    unfolding titled_title by (simp add: pys_def)
  from riss_record_kept_iff [OF 1 3, of "is_space ascii_db" str_unused "pys ''0''" titled]
    e [of "pys ''0''"] s0 5
  have a: "riss_record (is_space ascii_db) str_unused titled
     \<in> set (extract_articles_from_response (is_space ascii_db) str_unused (response_with (pys ''0'')))"
    by (simp add: response_with_def)
  from riss_record_kept_iff [OF 1 3, of "is_space ascii_db" str_unused "pys ''2''" titled]
    e [of "pys ''2''"] s2
  have b: "extract_articles_from_response (is_space ascii_db) str_unused
      (response_with (pys ''2'')) = []"
    by (simp add: response_with_def)
  from a b show ?thesis ..
qed

text \<open>
  C9 as stated fails: under the error code \<open>1\<close> a record with a title is not in the output.
\<close>

theorem riss_error_gate_counterexample:
  "extract_articles_from_response (is_space ascii_db) str_unused (response_with (pys ''1'')) = []
   \<and> riss_field (is_space ascii_db) str_unused titled (pys ''riss.title'') \<noteq> []"
proof -
  have "riss_field (is_space ascii_db) str_unused
          [(pys ''Error'', PDict [(pys ''text'', PStr (pys ''1''))])] (pys ''Error'') = pys ''1''"
    by (simp add: riss_field_def dict_get_def pys_def strip_def ascii_db_def py_str_def)
  moreover have "pys ''1'' \<noteq> pys ''0''" by (simp add: pys_def)
  ultimately have "extract_articles_from_response (is_space ascii_db) str_unused
      (response_with (pys ''1'')) = []"
    by (simp add: extract_articles_from_response_def response_with_def)
  moreover have "riss_field (is_space ascii_db) str_unused titled (pys ''riss.title'') \<noteq> []"
    unfolding titled_title by (simp add: pys_def)
  ultimately show ?thesis by simp
qed

section \<open>Claims about detail enrichment\<close>

lemma only_fills_refl: "only_fills a a"
  by (simp add: only_fills_def)

lemma only_fills_trans: "only_fills a b \<Longrightarrow> only_fills b c \<Longrightarrow> only_fills a c"
  by (auto simp: only_fills_def)

lemma only_fills_keywords: "keywords a = [] \<Longrightarrow> only_fills a (a\<lparr>keywords := k\<rparr>)"
  by (simp add: only_fills_def other_fields_def)

lemma only_fills_abstract: "abstract a = [] \<Longrightarrow> only_fills a (a\<lparr>abstract := k\<rparr>)"
  by (simp add: only_fills_def other_fields_def)

lemma only_fills_both:
  "keywords a = [] \<Longrightarrow> abstract a = [] \<Longrightarrow> only_fills a (a\<lparr>keywords := k, abstract := b\<rparr>)"
  by (simp add: only_fills_def other_fields_def)

lemma only_fills_restore:
  "only_fills a a' \<Longrightarrow> a'\<lparr>keywords := keywords a, abstract := abstract a\<rparr> = a"
proof -
  assume "only_fills a a'"
  then have "other_fields a' = other_fields a" by (simp add: only_fills_def)
  then have "(other_fields a')\<lparr>keywords := keywords a, abstract := abstract a\<rparr>
      = (other_fields a)\<lparr>keywords := keywords a, abstract := abstract a\<rparr>" by simp
  then show ?thesis by (simp add: other_fields_def)
qed

lemma enrich_one_length:
  "enrich_one sp rp records details x articles = (e, articles') \<Longrightarrow>
     length articles' = length articles"
  by (auto simp: enrich_one_def Let_def
      split: prod.splits option.splits sum.splits if_splits)

lemma enrich_one_fills:
  "enrich_one sp rp records details x articles = (e, articles') \<Longrightarrow> j < length articles \<Longrightarrow>
     only_fills (articles ! j) (articles' ! j)"
  by (auto simp: enrich_one_def Let_def nth_list_update only_fills_refl
        only_fills_keywords only_fills_abstract only_fills_both
      split: prod.splits option.splits sum.splits if_splits)

lemma enrich_one_other:
  "enrich_one sp rp records details x articles = (e, articles') \<Longrightarrow>
     j \<noteq> fst x \<or> details (snd x) = None \<Longrightarrow> articles' ! j = articles ! j"
  by (auto simp: enrich_one_def Let_def
      split: prod.splits option.splits sum.splits if_splits)

lemma enrich_details_all:
  "length (enrich_details sp rp records details need articles) = length articles
   \<and> (\<forall>j<length articles.
        only_fills (articles ! j) (enrich_details sp rp records details need articles ! j)
        \<and> ((\<forall>aid. (j, aid) \<in> set need \<longrightarrow> details aid = None)
             \<longrightarrow> enrich_details sp rp records details need articles ! j = articles ! j))"
proof (induction need arbitrary: articles)
  case Nil
  show ?case by (simp add: only_fills_refl)
next
  case (Cons x rest)
  obtain e A where step: "enrich_one sp rp records details x articles = (e, A)"
    by (cases "enrich_one sp rp records details x articles")
  have len: "length A = length articles" using step by (rule enrich_one_length)
  have fills: "only_fills (articles ! j) (A ! j)" if "j < length articles" for j
    using step that by (rule enrich_one_fills)
  have same: "A ! j = articles ! j"
    if "\<forall>aid. (j, aid) \<in> set (x # rest) \<longrightarrow> details aid = None" for j
  proof -
    from that have "j \<noteq> fst x \<or> details (snd x) = None" by (cases x) auto
    with step show ?thesis by (rule enrich_one_other)
  qed
  show ?case
  proof (cases e)
    case (Some err)
    with step have "enrich_details sp rp records details (x # rest) articles = A" by simp
    with len fills same show ?thesis by simp
  next
    case None
    with step have r: "enrich_details sp rp records details (x # rest) articles
        = enrich_details sp rp records details rest A" by simp
    from Cons.IH [of A] len
    have l2: "length (enrich_details sp rp records details rest A) = length articles"
      and f2: "\<And>j. j < length articles \<Longrightarrow>
          only_fills (A ! j) (enrich_details sp rp records details rest A ! j)"
      and s2: "\<And>j. j < length articles \<Longrightarrow>
          \<forall>aid. (j, aid) \<in> set rest \<longrightarrow> details aid = None \<Longrightarrow>
          enrich_details sp rp records details rest A ! j = A ! j"
      by simp_all
    show ?thesis unfolding r
    proof (intro conjI allI impI)
      show "length (enrich_details sp rp records details rest A) = length articles" by (rule l2)
    next
      fix j assume j: "j < length articles"
      from fills [OF j] f2 [OF j]
      show "only_fills (articles ! j) (enrich_details sp rp records details rest A ! j)"
        by (rule only_fills_trans)
    next
      fix j assume j: "j < length articles"
        and n: "\<forall>aid. (j, aid) \<in> set (x # rest) \<longrightarrow> details aid = None"
      from n have "\<forall>aid. (j, aid) \<in> set rest \<longrightarrow> details aid = None" by simp
      from s2 [OF j this] same [OF n]
      show "enrich_details sp rp records details rest A ! j = articles ! j" by simp
    qed
  qed
qed

text \<open>
  C10. The enrichment loop keeps the number of articles; in every article it leaves every
  field other than \<open>keywords\<close> and \<open>abstract\<close> as it was, and it leaves \<open>keywords\<close> and
  \<open>abstract\<close> as they were when they were not empty; an article for which no detail was
  found is unchanged. This holds also when an exception ends the loop early.
\<close>

theorem enrich_details_frame:
  assumes "j < length articles"
  shows "length (enrich_details sp rp records details need articles) = length articles
     \<and> (enrich_details sp rp records details need articles ! j)
          \<lparr>keywords := keywords (articles ! j), abstract := abstract (articles ! j)\<rparr>
        = articles ! j
     \<and> (keywords (articles ! j) \<noteq> [] \<longrightarrow>
          keywords (enrich_details sp rp records details need articles ! j)
            = keywords (articles ! j))
     \<and> (abstract (articles ! j) \<noteq> [] \<longrightarrow>
          abstract (enrich_details sp rp records details need articles ! j)
            = abstract (articles ! j))
     \<and> ((\<forall>aid. (j, aid) \<in> set need \<longrightarrow> details aid = None) \<longrightarrow>
          enrich_details sp rp records details need articles ! j = articles ! j)"
proof -
  let ?r = "enrich_details sp rp records details need articles"
  from enrich_details_all [of sp rp records details need articles] assms
  have l: "length ?r = length articles" and f: "only_fills (articles ! j) (?r ! j)"
    and s: "(\<forall>aid. (j, aid) \<in> set need \<longrightarrow> details aid = None) \<longrightarrow> ?r ! j = articles ! j"
    by blast+
  from f have "(?r ! j)\<lparr>keywords := keywords (articles ! j), abstract := abstract (articles ! j)\<rparr>
      = articles ! j" by (rule only_fills_restore)
  moreover from f have "keywords (articles ! j) \<noteq> [] \<longrightarrow> keywords (?r ! j) = keywords (articles ! j)"
    "abstract (articles ! j) \<noteq> [] \<longrightarrow> abstract (?r ! j) = abstract (articles ! j)"
    by (simp_all add: only_fills_def)
  ultimately show ?thesis using l s by blast
qed

theorem enrich_details_frame_witness:
  "enrich_details (is_space ascii_db) str_unused [two_titles] (\<lambda>aid. None)
      [(0, PStr (pys ''ART1''))] [sample_article] ! 0 = sample_article
   \<and> keywords (enrich_details (is_space ascii_db) str_unused [two_titles] (\<lambda>aid. None)
      [(0, PStr (pys ''ART1''))] [sample_article] ! 0) = keywords sample_article"
proof -
  have j: "(0::nat) < length [sample_article]" by simp
  have k: "keywords ([sample_article] ! 0) \<noteq> []" by (simp add: sample_article_def pys_def)
  have n: "\<forall>aid. (0, aid) \<in> set [(0::nat, PStr (pys ''ART1''))] \<longrightarrow> (\<lambda>aid. None :: pyval option) aid = None"
    by simp
  from enrich_details_frame [OF j, of "is_space ascii_db" str_unused "[two_titles]"
      "\<lambda>aid. None" "[(0, PStr (pys ''ART1''))]"] k n
  show ?thesis by simp
qed

end
